theory Spec2Isabelle
  imports Main "HOL-Library.Word" "HOL-Library.Stream"
begin

unbundle bit_operations_syntax

section \<open>The machine: I/O ports, display memory and the console's globals\<close>

text \<open>
  The model follows \<^verbatim>\<open>src/kernel/console.c\<close>. A C \<^verbatim>\<open>int\<close> or \<^verbatim>\<open>unsigned\<close> is a
  \<open>32 word\<close> (\<open>-1\<close> is the all-ones word), a \<^verbatim>\<open>uint8_t\<close> an \<open>8 word\<close>, a
  \<^verbatim>\<open>uint16_t\<close> a \<open>16 word\<close>; conversions between them are \<open>ucast\<close>.

  \<^verbatim>\<open>inb\<close> and \<^verbatim>\<open>outb\<close> come from \<^verbatim>\<open>inc/x86.h\<close>: they are the hardware
  primitives. What the hardware answers is not decided by the program, so each port carries
  the stream of bytes that its successive reads will return (any behaviour of a status
  register is some stream); \<^verbatim>\<open>inb\<close> takes the head of the stream of its port. Every
  \<^verbatim>\<open>outb\<close> is appended to a log of port writes.
\<close>

type_synonym port = "32 word"

datatype mem_ev = MRead "32 word" | MWrite "32 word" "16 word"

record cons_t =
  buf :: "8 word list"
  rpos :: "32 word"
  wpos :: "32 word"

record sys =
  inp :: "port \<Rightarrow> 8 word stream"
  outlog :: "(port \<times> 8 word) list"
  mem :: "32 word \<Rightarrow> 16 word"
  backed :: "32 word \<Rightarrow> bool"
  memlog :: "mem_ev list"
  serial_exists :: bool
  addr_6845 :: "32 word"
  crt_buf :: "32 word"
  crt_pos :: "16 word"
  kbd_shift :: "32 word"
  cons :: cons_t

definition inb :: "port \<Rightarrow> sys \<Rightarrow> 8 word \<times> sys" where
  "inb p s = (shd (inp s p), s\<lparr>inp := (inp s)(p := stl (inp s p))\<rparr>)"

definition outb :: "port \<Rightarrow> 8 word \<Rightarrow> sys \<Rightarrow> sys" where
  "outb p v s = s\<lparr>outlog := outlog s @ [(p, v)]\<rparr>"

text \<open>\<^verbatim>\<open>static void delay(void) { inb(0x84); inb(0x84); inb(0x84); inb(0x84); }\<close>\<close>

definition delay :: "sys \<Rightarrow> sys" where
  "delay s = snd (inb 0x84 (snd (inb 0x84 (snd (inb 0x84 (snd (inb 0x84 s)))))))"

section \<open>Serial I/O\<close>

definition COM1 :: "32 word" where "COM1 = 0x3f8"
definition COM_RX :: "32 word" where "COM_RX = 0"
definition COM_TX :: "32 word" where "COM_TX = 0"
definition COM_DLL :: "32 word" where "COM_DLL = 0"
definition COM_DLM :: "32 word" where "COM_DLM = 1"
definition COM_IER :: "32 word" where "COM_IER = 1"
definition COM_IER_RDI :: "32 word" where "COM_IER_RDI = 0x01"
definition COM_IIR :: "32 word" where "COM_IIR = 2"
definition COM_FCR :: "32 word" where "COM_FCR = 2"
definition COM_LCR :: "32 word" where "COM_LCR = 3"
definition COM_LCR_DLAB :: "32 word" where "COM_LCR_DLAB = 0x80"
definition COM_LCR_WLEN8 :: "32 word" where "COM_LCR_WLEN8 = 0x03"
definition COM_MCR :: "32 word" where "COM_MCR = 4"
definition COM_LSR :: "32 word" where "COM_LSR = 5"
definition COM_LSR_DATA :: "32 word" where "COM_LSR_DATA = 0x01"
definition COM_LSR_TXRDY :: "32 word" where "COM_LSR_TXRDY = 0x20"

lemmas com_defs = COM1_def COM_RX_def COM_TX_def COM_DLL_def COM_DLM_def COM_IER_def
  COM_IER_RDI_def COM_IIR_def COM_FCR_def COM_LCR_def COM_LCR_DLAB_def COM_LCR_WLEN8_def
  COM_MCR_def COM_LSR_def COM_LSR_DATA_def COM_LSR_TXRDY_def

text \<open>
  The wait loop of \<^verbatim>\<open>serial_putc\<close>:
  \<^verbatim>\<open>for (int i = 0; !(inb(COM1+COM_LSR) & COM_LSR_TXRDY) && i < 12800; ++i) delay();\<close>
  The status register is read before \<^verbatim>\<open>i\<close> is tested, on every evaluation of the
  condition. The function returns the final value of \<^verbatim>\<open>i\<close> with the state.
\<close>

function serial_putc_loop :: "nat \<Rightarrow> sys \<Rightarrow> nat \<times> sys" where
  "serial_putc_loop i s =
     (let r = inb (COM1 + COM_LSR) s in
      if ucast (fst r) AND COM_LSR_TXRDY = 0 \<and> i < 12800
      then serial_putc_loop (i + 1) (delay (snd r))
      else (i, snd r))"
  by pat_completeness auto
termination
  by (relation "measure (\<lambda>(i, s). 12800 - i)") auto

declare serial_putc_loop.simps [simp del]

definition serial_putc :: "32 word \<Rightarrow> sys \<Rightarrow> sys" where
  "serial_putc c s = outb (COM1 + COM_TX) (ucast c) (snd (serial_putc_loop 0 s))"

section \<open>Parallel port output\<close>

function lpt_putc_loop :: "nat \<Rightarrow> sys \<Rightarrow> nat \<times> sys" where
  "lpt_putc_loop i s =
     (let r = inb (0x378 + 1) s in
      if ucast (fst r) AND (0x80 :: 32 word) = 0 \<and> i < 12800
      then lpt_putc_loop (i + 1) (delay (snd r))
      else (i, snd r))"
  by pat_completeness auto
termination
  by (relation "measure (\<lambda>(i, s). 12800 - i)") auto

declare lpt_putc_loop.simps [simp del]

definition lpt_putc :: "32 word \<Rightarrow> sys \<Rightarrow> sys" where
  "lpt_putc c s =
     outb (0x378 + 2) 0x08
       (outb (0x378 + 2) (0x08 OR 0x04 OR 0x01)
          (outb (0x378 + 0) (ucast c) (snd (lpt_putc_loop 0 s))))"

text \<open>
  \<^verbatim>\<open>serial_proc_data\<close>: \<open>-1\<close> when the data-available bit is clear, else the byte read
  from the receive buffer (a \<^verbatim>\<open>uint8_t\<close> widened to \<^verbatim>\<open>int\<close>).
\<close>

definition serial_proc_data :: "sys \<Rightarrow> 32 word \<times> sys" where
  "serial_proc_data s =
     (let r = inb (COM1 + COM_LSR) s in
      if ucast (fst r) AND COM_LSR_DATA = 0 then (- 1, snd r)
      else (let r2 = inb (COM1 + COM_RX) (snd r) in (ucast (fst r2), snd r2)))"

text \<open>
  \<^verbatim>\<open>serial_init\<close>. The source has no \<^verbatim>\<open>;\<close> after the assignment to
  \<^verbatim>\<open>serial_exists\<close>; the model takes the three statements of lines 79 to 81 in order.
\<close>

definition serial_init :: "sys \<Rightarrow> sys" where
  "serial_init s0 =
     (let s1 = outb (COM1 + COM_FCR) 0 s0;
          s2 = outb (COM1 + COM_LCR) (ucast COM_LCR_DLAB) s1;
          s3 = outb (COM1 + COM_DLL) (ucast (115200 div 9600 :: 32 word)) s2;
          s4 = outb (COM1 + COM_DLM) 0 s3;
          s5 = outb (COM1 + COM_LCR) (ucast (COM_LCR_WLEN8 AND NOT COM_LCR_DLAB)) s4;
          s6 = outb (COM1 + COM_MCR) 0 s5;
          s7 = outb (COM1 + COM_IER) (ucast COM_IER_RDI) s6;
          r = inb (COM1 + COM_LSR) s7;
          s8 = (snd r)\<lparr>serial_exists := (ucast (fst r) \<noteq> (0xff :: 32 word))\<rparr>;
          s9 = snd (inb (COM1 + COM_IIR) s8)
      in snd (inb (COM1 + COM_RX) s9))"

section \<open>Constants of the headers\<close>

text \<open>
  \<^verbatim>\<open>inc/memlayout.h\<close>, \<^verbatim>\<open>kernel/console.h\<close> and the keyboard register header are not
  part of the source file; the constants that \<^verbatim>\<open>console.c\<close> takes from them are
  parameters of the model. \<open>pc_hdr\<close> is the conventional PC instance, used where a concrete
  machine is needed.
\<close>

record hdr =
  KBSTATP :: port
  KBDATAP :: port
  KBS_DIB :: "32 word"
  KEY_HOME :: "32 word"
  KEY_END :: "32 word"
  KEY_UP :: "32 word"
  KEY_DN :: "32 word"
  KEY_LF :: "32 word"
  KEY_RT :: "32 word"
  KEY_PGUP :: "32 word"
  KEY_PGDN :: "32 word"
  KEY_INS :: "32 word"
  KEY_DEL :: "32 word"
  KERNBASE :: "32 word"
  CGA_BUFF :: "32 word"
  MONO_BUFF :: "32 word"
  CGA_BASE :: "32 word"

definition pc_hdr :: hdr where
  "pc_hdr = \<lparr>KBSTATP = 0x64, KBDATAP = 0x60, KBS_DIB = 0x01,
     KEY_HOME = 0xE0, KEY_END = 0xE1, KEY_UP = 0xE2, KEY_DN = 0xE3, KEY_LF = 0xE4,
     KEY_RT = 0xE5, KEY_PGUP = 0xE6, KEY_PGDN = 0xE7, KEY_INS = 0xE8, KEY_DEL = 0xE9,
     KERNBASE = 0xF0000000, CGA_BUFF = 0xB8000, MONO_BUFF = 0xB0000, CGA_BASE = 0x3D4\<rparr>"

section \<open>Text-mode display: the probe of \<^verbatim>\<open>cga_init\<close>\<close>

text \<open>
  Display memory is a store of 16-bit cells. A cell that is \<open>backed\<close> keeps what is
  written to it; a store to a cell with no memory behind it is lost and the cell reads what
  it read before. Every access is logged in \<open>memlog\<close>. The source declares
  \<^verbatim>\<open>volatile uint16_t cp\<close> and dereferences it; the model takes \<^verbatim>\<open>cp\<close> as the
  pointer it is used as.
\<close>

definition mem_read :: "32 word \<Rightarrow> sys \<Rightarrow> 16 word \<times> sys" where
  "mem_read a s = (mem s a, s\<lparr>memlog := memlog s @ [MRead a]\<rparr>)"

definition mem_write :: "32 word \<Rightarrow> 16 word \<Rightarrow> sys \<Rightarrow> sys" where
  "mem_write a v s =
     s\<lparr>mem := (if backed s a then (mem s)(a := v) else mem s),
       memlog := memlog s @ [MWrite a v]\<rparr>"

definition cga_probe :: "hdr \<Rightarrow> sys \<Rightarrow> 32 word \<times> sys" where
  "cga_probe K s0 =
     (let cp = KERNBASE K + CGA_BUFF K;
          r1 = mem_read cp s0;
          was = fst r1;
          s2 = mem_write cp 0xa55a (snd r1);
          r3 = mem_read cp s2
      in if fst r3 \<noteq> 0xa55a
         then (KERNBASE K + MONO_BUFF K, (snd r3)\<lparr>addr_6845 := MONO_BUFF K\<rparr>)
         else (cp, (mem_write cp was (snd r3))\<lparr>addr_6845 := CGA_BASE K\<rparr>))"

definition cga_init :: "hdr \<Rightarrow> sys \<Rightarrow> sys" where
  "cga_init K s0 =
     (let r = cga_probe K s0;
          cp = fst r;
          s1 = outb (addr_6845 (snd r)) 14 (snd r);
          r2 = inb (addr_6845 s1 + 1) s1;
          pos = push_bit 8 (ucast (fst r2) :: 32 word);
          s3 = outb (addr_6845 (snd r2)) 15 (snd r2);
          r4 = inb (addr_6845 s3 + 1) s3;
          pos' = pos OR ucast (fst r4)
      in (snd r4)\<lparr>crt_buf := cp, crt_pos := ucast pos'\<rparr>)"

section \<open>Keyboard input\<close>

definition NO :: "8 word" where "NO = 0"

definition SHIFT :: "32 word" where "SHIFT = push_bit 0 1"
definition CTL :: "32 word" where "CTL = push_bit 1 1"
definition ALT :: "32 word" where "ALT = push_bit 2 1"
definition CAPSLOCK :: "32 word" where "CAPSLOCK = push_bit 3 1"
definition NUMLOCK :: "32 word" where "NUMLOCK = push_bit 4 1"
definition SCROLLLOCK :: "32 word" where "SCROLLLOCK = push_bit 5 1"
definition E0ESC :: "32 word" where "E0ESC = push_bit 6 1"

lemmas mod_defs = SHIFT_def CTL_def ALT_def CAPSLOCK_def NUMLOCK_def SCROLLLOCK_def E0ESC_def

text \<open>
  A 256-entry \<^verbatim>\<open>uint8_t\<close> table of the source: the positional initialisers from index 0,
  the designated initialisers \<^verbatim>\<open>[i] = v\<close>, and zero everywhere else. The index is a
  \<^verbatim>\<open>uint8_t\<close>, so every lookup is in range.
\<close>

definition table :: "8 word list \<Rightarrow> (8 word \<times> 8 word) list \<Rightarrow> 8 word \<Rightarrow> 8 word" where
  "table pos des i =
     (case map_of des i of
        Some v \<Rightarrow> v
      | None \<Rightarrow> if unat i < length pos then pos ! unat i else 0)"

definition ch :: "char \<Rightarrow> 8 word" where
  "ch c = of_char c"

definition shiftcode :: "8 word \<Rightarrow> 8 word" where
  "shiftcode = table []
     [(0x1D, ucast CTL), (0x2A, ucast SHIFT), (0x36, ucast SHIFT), (0x38, ucast ALT),
      (0x9D, ucast CTL), (0xB8, ucast ALT)]"

definition togglecode :: "8 word \<Rightarrow> 8 word" where
  "togglecode = table []
     [(0x3A, ucast CAPSLOCK), (0x45, ucast NUMLOCK), (0x46, ucast SCROLLLOCK)]"

text \<open>
  The character constants that are escapes in C are written as their codes:
  \<^verbatim>\<open>'\b'\<close> 0x08, \<^verbatim>\<open>'\t'\<close> 0x09, \<^verbatim>\<open>'\n'\<close> 0x0A, \<^verbatim>\<open>'\r'\<close> 0x0D,
  \<^verbatim>\<open>'"'\<close> 0x22, \<^verbatim>\<open>'\''\<close> 0x27, \<^verbatim>\<open>'\\'\<close> 0x5C, the backquote 0x60, and octal
  \<^verbatim>\<open>033\<close> is 0x1B.
\<close>

definition normalmap :: "hdr \<Rightarrow> 8 word \<Rightarrow> 8 word" where
  "normalmap K = table
     [NO, 0x1B, ch CHR ''1'', ch CHR ''2'', ch CHR ''3'', ch CHR ''4'', ch CHR ''5'', ch CHR ''6'',
      ch CHR ''7'', ch CHR ''8'', ch CHR ''9'', ch CHR ''0'', ch CHR ''-'', ch CHR ''='', 0x08, 0x09,
      ch CHR ''q'', ch CHR ''w'', ch CHR ''e'', ch CHR ''r'', ch CHR ''t'', ch CHR ''y'', ch CHR ''u'', ch CHR ''i'',
      ch CHR ''o'', ch CHR ''p'', ch CHR ''['', ch CHR '']'', 0x0A, NO, ch CHR ''a'', ch CHR ''s'',
      ch CHR ''d'', ch CHR ''f'', ch CHR ''g'', ch CHR ''h'', ch CHR ''j'', ch CHR ''k'', ch CHR ''l'', ch CHR '';'',
      0x27, 0x60, NO, 0x5C, ch CHR ''z'', ch CHR ''x'', ch CHR ''c'', ch CHR ''v'',
      ch CHR ''b'', ch CHR ''n'', ch CHR ''m'', ch CHR '','', ch CHR ''.'', ch CHR ''/'', NO, ch CHR ''*'',
      NO, ch CHR '' '', NO, NO, NO, NO, NO, NO,
      NO, NO, NO, NO, NO, NO, NO, ch CHR ''7'',
      ch CHR ''8'', ch CHR ''9'', ch CHR ''-'', ch CHR ''4'', ch CHR ''5'', ch CHR ''6'', ch CHR ''+'', ch CHR ''1'',
      ch CHR ''2'', ch CHR ''3'', ch CHR ''0'', ch CHR ''.'', NO, NO, NO, NO]
     [(0xC7, ucast (KEY_HOME K)), (0x9C, 0x0A),
      (0xB5, ch CHR ''/''), (0xC8, ucast (KEY_UP K)),
      (0xC9, ucast (KEY_PGUP K)), (0xCB, ucast (KEY_LF K)),
      (0xCD, ucast (KEY_RT K)), (0xCF, ucast (KEY_END K)),
      (0xD0, ucast (KEY_DN K)), (0xD1, ucast (KEY_PGDN K)),
      (0xD2, ucast (KEY_INS K)), (0xD3, ucast (KEY_DEL K))]"

definition shiftmap :: "hdr \<Rightarrow> 8 word \<Rightarrow> 8 word" where
  "shiftmap K = table
     [NO, 0x1B, ch CHR ''!'', ch CHR ''@'', ch CHR ''#'', ch CHR ''$'', ch CHR ''%'', ch CHR ''^'',
      ch CHR ''&'', ch CHR ''*'', ch CHR ''('', ch CHR '')'', ch CHR ''_'', ch CHR ''+'', 0x08, 0x09,
      ch CHR ''Q'', ch CHR ''W'', ch CHR ''E'', ch CHR ''R'', ch CHR ''T'', ch CHR ''Y'', ch CHR ''U'', ch CHR ''I'',
      ch CHR ''O'', ch CHR ''P'', ch CHR ''{'', ch CHR ''}'', 0x0A, NO, ch CHR ''A'', ch CHR ''S'',
      ch CHR ''D'', ch CHR ''F'', ch CHR ''G'', ch CHR ''H'', ch CHR ''J'', ch CHR ''K'', ch CHR ''L'', ch CHR '':'',
      0x22, ch CHR ''~'', NO, ch CHR ''|'', ch CHR ''Z'', ch CHR ''X'', ch CHR ''C'', ch CHR ''V'',
      ch CHR ''B'', ch CHR ''N'', ch CHR ''M'', ch CHR ''<'', ch CHR ''>'', ch CHR ''?'', NO, ch CHR ''*'',
      NO, ch CHR '' '', NO, NO, NO, NO, NO, NO,
      NO, NO, NO, NO, NO, NO, NO, ch CHR ''7'',
      ch CHR ''8'', ch CHR ''9'', ch CHR ''-'', ch CHR ''4'', ch CHR ''5'', ch CHR ''6'', ch CHR ''+'', ch CHR ''1'',
      ch CHR ''2'', ch CHR ''3'', ch CHR ''0'', ch CHR ''.'', NO, NO, NO, NO]
     [(0xC7, ucast (KEY_HOME K)), (0x9C, 0x0A),
      (0xB5, ch CHR ''/''), (0xC8, ucast (KEY_UP K)),
      (0xC9, ucast (KEY_PGUP K)), (0xCB, ucast (KEY_LF K)),
      (0xCD, ucast (KEY_RT K)), (0xCF, ucast (KEY_END K)),
      (0xD0, ucast (KEY_DN K)), (0xD1, ucast (KEY_PGDN K)),
      (0xD2, ucast (KEY_INS K)), (0xD3, ucast (KEY_DEL K))]"

text \<open>\<^verbatim>\<open>#define C(x) (x - '@')\<close>, stored in a \<^verbatim>\<open>uint8_t\<close>.\<close>

definition C_of :: "8 word \<Rightarrow> 8 word" where
  "C_of x = x - ch CHR ''@''"

definition ctlmap :: "hdr \<Rightarrow> 8 word \<Rightarrow> 8 word" where
  "ctlmap K = table
     [NO, NO, NO, NO, NO, NO, NO, NO,
      NO, NO, NO, NO, NO, NO, NO, NO,
      C_of (ch CHR ''Q''), C_of (ch CHR ''W''), C_of (ch CHR ''E''), C_of (ch CHR ''R''),
      C_of (ch CHR ''T''), C_of (ch CHR ''Y''), C_of (ch CHR ''U''), C_of (ch CHR ''I''),
      C_of (ch CHR ''O''), C_of (ch CHR ''P''), NO, NO,
      0x0D, NO, C_of (ch CHR ''A''), C_of (ch CHR ''S''),
      C_of (ch CHR ''D''), C_of (ch CHR ''F''), C_of (ch CHR ''G''), C_of (ch CHR ''H''),
      C_of (ch CHR ''J''), C_of (ch CHR ''K''), C_of (ch CHR ''L''), NO,
      NO, NO, NO, C_of 0x5C,
      C_of (ch CHR ''Z''), C_of (ch CHR ''X''), C_of (ch CHR ''C''), C_of (ch CHR ''V''),
      C_of (ch CHR ''B''), C_of (ch CHR ''N''), C_of (ch CHR ''M''), NO,
      NO, C_of (ch CHR ''/''), NO, NO]
     [(0x97, ucast (KEY_HOME K)),
      (0xB5, C_of (ch CHR ''/'')), (0xC8, ucast (KEY_UP K)),
      (0xC9, ucast (KEY_PGUP K)), (0xCB, ucast (KEY_LF K)),
      (0xCD, ucast (KEY_RT K)), (0xCF, ucast (KEY_END K)),
      (0xD0, ucast (KEY_DN K)), (0xD1, ucast (KEY_PGDN K)),
      (0xD2, ucast (KEY_INS K)), (0xD3, ucast (KEY_DEL K))]"

text \<open>\<^verbatim>\<open>static uint8_t *charcode[4] = { normalmap, shiftmap, ctlmap, ctlmap };\<close>\<close>

definition charcode :: "hdr \<Rightarrow> (8 word \<Rightarrow> 8 word) list" where
  "charcode K = [normalmap K, shiftmap K, ctlmap K, ctlmap K]"

text \<open>
  \<^verbatim>\<open>kbd_proc_data\<close>. The modifier state is the function's \<^verbatim>\<open>static uint32_t shift\<close>,
  here the field \<open>kbd_shift\<close>. The source uses \<^verbatim>\<open>c\<close> without declaring it; it is the
  \<^verbatim>\<open>int\<close> that the function returns, so the comparisons with the letters are signed.
\<close>

definition caps_swap :: "32 word \<Rightarrow> 32 word" where
  "caps_swap c =
     (if word_sle (ucast (ch CHR ''a'')) c \<and> word_sle c (ucast (ch CHR ''z''))
      then c + (ucast (ch CHR ''A'') - ucast (ch CHR ''a''))
      else if word_sle (ucast (ch CHR ''A'')) c \<and> word_sle c (ucast (ch CHR ''Z''))
      then c + (ucast (ch CHR ''a'') - ucast (ch CHR ''A''))
      else c)"

definition kbd_proc_data :: "hdr \<Rightarrow> sys \<Rightarrow> 32 word \<times> sys" where
  "kbd_proc_data K s0 =
     (let r = inb (KBSTATP K) s0 in
      if ucast (fst r) AND KBS_DIB K = 0 then (- 1, snd r)
      else
        (let r1 = inb (KBDATAP K) (snd r);
             data = fst r1;
             s1 = snd r1
         in if data = 0xe0
            then (0, s1\<lparr>kbd_shift := kbd_shift s1 OR E0ESC\<rparr>)
            else if data AND 0x80 \<noteq> 0
            then
              (let data1 = (if kbd_shift s1 AND E0ESC \<noteq> 0 then data else data AND 0x7f)
               in (0, s1\<lparr>kbd_shift := kbd_shift s1 AND NOT (ucast (shiftcode data1) OR E0ESC)\<rparr>))
            else
              (let data1 = (if kbd_shift s1 AND E0ESC \<noteq> 0 then data OR 0x80 else data);
                   s2 = (if kbd_shift s1 AND E0ESC \<noteq> 0
                         then s1\<lparr>kbd_shift := kbd_shift s1 AND NOT E0ESC\<rparr> else s1);
                   s3 = s2\<lparr>kbd_shift := kbd_shift s2 OR ucast (shiftcode data1)\<rparr>;
                   s4 = s3\<lparr>kbd_shift := kbd_shift s3 XOR ucast (togglecode data1)\<rparr>;
                   c = ucast ((charcode K ! unat (kbd_shift s4 AND (CTL OR SHIFT))) data1);
                   c1 = (if kbd_shift s4 AND CAPSLOCK \<noteq> 0 then caps_swap c else c);
                   s5 = (if NOT (kbd_shift s4) AND (CTL OR ALT) = 0 \<and> c1 = KEY_DEL K
                         then outb 0x92 0x3 s4 else s4)
               in (c1, s5))))"

section \<open>The console input buffer\<close>

definition CONSBUFSIZE :: "32 word" where "CONSBUFSIZE = 512"

text \<open>
  The body of the loop of \<^verbatim>\<open>cons_intr\<close> for a character that is stored:
  \<^verbatim>\<open>cons.buf[cons.wpos++] = c; if (cons.wpos == CONSBUFSIZE) cons.wpos = 0;\<close>
  The array has \<^verbatim>\<open>CONSBUFSIZE\<close> cells and the cursors stay below \<^verbatim>\<open>CONSBUFSIZE\<close>
  (\<open>cons_ok\<close> below), so the index is in range in every state the program reaches.
\<close>

definition cons_store :: "32 word \<Rightarrow> sys \<Rightarrow> sys" where
  "cons_store c s =
     (let k = cons s;
          k1 = k\<lparr>buf := (buf k)[unat (wpos k) := ucast c], wpos := wpos k + 1\<rparr>;
          k2 = (if wpos k1 = CONSBUFSIZE then k1\<lparr>wpos := 0\<rparr> else k1)
      in s\<lparr>cons := k2\<rparr>)"

text \<open>
  \<^verbatim>\<open>cons_intr\<close> runs as long as the source has data; a source that never answers
  \<open>-1\<close> keeps it running for ever, which is the value \<open>None\<close>.
\<close>

partial_function (option) cons_intr :: "(sys \<Rightarrow> 32 word \<times> sys) \<Rightarrow> sys \<Rightarrow> sys option" where
  "cons_intr proc s =
     (let r = proc s; c = fst r; s1 = snd r
      in if c = - 1 then Some s1
         else if c = 0 then cons_intr proc s1
         else cons_intr proc (cons_store c s1))"

definition serial_intr :: "sys \<Rightarrow> sys option" where
  "serial_intr s = (if serial_exists s then cons_intr serial_proc_data s else Some s)"

text \<open>
  Modelled from the spec: \<^verbatim>\<open>kbd_intr\<close> calls \<^verbatim>\<open>console_intr\<close>, which
  \<^verbatim>\<open>console.c\<close> does not define. The spec (4.2, 5) has the keyboard and the serial
  source drained by the same routine, which is \<^verbatim>\<open>cons_intr\<close>.
\<close>

definition console_intr :: "(sys \<Rightarrow> 32 word \<times> sys) \<Rightarrow> sys \<Rightarrow> sys option" where
  "console_intr = cons_intr"

definition kbd_intr :: "hdr \<Rightarrow> sys \<Rightarrow> sys option" where
  "kbd_intr K s = console_intr (kbd_proc_data K) s"

text \<open>The part of \<^verbatim>\<open>cons_getc\<close> after the two polls: take the next character, if any.\<close>

definition cons_take :: "sys \<Rightarrow> 32 word \<times> sys" where
  "cons_take s =
     (let k = cons s in
      if rpos k \<noteq> wpos k
      then
        (let c = ucast (buf k ! unat (rpos k));
             k1 = k\<lparr>rpos := rpos k + 1\<rparr>;
             k2 = (if rpos k1 = CONSBUFSIZE then k1\<lparr>rpos := 0\<rparr> else k1)
         in (c, s\<lparr>cons := k2\<rparr>))
      else (- 1, s))"

definition cons_getc :: "hdr \<Rightarrow> sys \<Rightarrow> (32 word \<times> sys) option" where
  "cons_getc K s =
     (case serial_intr s of
        None \<Rightarrow> None
      | Some s1 \<Rightarrow>
          (case kbd_intr K s1 of
             None \<Rightarrow> None
           | Some s2 \<Rightarrow> Some (cons_take s2)))"

text \<open>\<^verbatim>\<open>getchar\<close>: \<^verbatim>\<open>while ((c = cons_getc()) == 0) { } return c;\<close>\<close>

partial_function (option) getchar :: "hdr \<Rightarrow> sys \<Rightarrow> (32 word \<times> sys) option" where
  "getchar K s =
     (case cons_getc K s of
        None \<Rightarrow> None
      | Some r \<Rightarrow> if fst r = 0 then getchar K (snd r) else Some r)"

section \<open>Notions used to state the properties\<close>

text \<open>
  The cursors index the array: \<^verbatim>\<open>buf\<close> has \<^verbatim>\<open>CONSBUFSIZE\<close> cells and both cursors
  are below \<^verbatim>\<open>CONSBUFSIZE\<close>.
\<close>

definition cons_ok :: "cons_t \<Rightarrow> bool" where
  "cons_ok k \<longleftrightarrow> length (buf k) = 512 \<and> unat (rpos k) < 512 \<and> unat (wpos k) < 512"

text \<open>The bytes held between \<^verbatim>\<open>rpos\<close> and \<^verbatim>\<open>wpos\<close>, oldest first.\<close>

definition pending :: "cons_t \<Rightarrow> 8 word list" where
  "pending k =
     (let r = unat (rpos k); w = unat (wpos k)
      in if r \<le> w then map (nth (buf k)) [r..<w]
         else map (nth (buf k)) ([r..<512] @ [0..<w]))"

text \<open>What the next poll of the keyboard reads: the status byte, then the data byte.\<close>

definition kbd_status :: "hdr \<Rightarrow> sys \<Rightarrow> 8 word" where
  "kbd_status K s = fst (inb (KBSTATP K) s)"

definition kbd_data :: "hdr \<Rightarrow> sys \<Rightarrow> 8 word" where
  "kbd_data K s = fst (inb (KBDATAP K) (snd (inb (KBSTATP K) s)))"

text \<open>
  The serial line delivers the bytes \<open>bs\<close> and has no data from then on: the line status
  shows data available once for each byte, the receive buffer holds the bytes in order,
  and every later line status has the data-available bit clear.
\<close>

fun serial_delivers :: "8 word list \<Rightarrow> 8 word stream \<Rightarrow> 8 word stream \<Rightarrow> bool" where
  "serial_delivers [] lsr rx \<longleftrightarrow> (\<forall>x \<in> sset lsr. ucast x AND COM_LSR_DATA = 0)"
| "serial_delivers (b # bs) lsr rx \<longleftrightarrow>
     ucast (shd lsr) AND COM_LSR_DATA \<noteq> 0 \<and> shd rx = b \<and> serial_delivers bs (stl lsr) (stl rx)"

definition kbd_idle :: "hdr \<Rightarrow> sys \<Rightarrow> bool" where
  "kbd_idle K s \<longleftrightarrow>
     KBSTATP K \<noteq> COM1 + COM_LSR \<and> KBSTATP K \<noteq> COM1 + COM_RX \<and>
     (\<forall>x \<in> sset (inp s (KBSTATP K)). ucast x AND KBS_DIB K = 0)"

text \<open>\<open>n\<close> successive calls of \<^verbatim>\<open>cons_getc\<close>, with the values they return.\<close>

fun pops :: "hdr \<Rightarrow> nat \<Rightarrow> sys \<Rightarrow> (32 word list \<times> sys) option" where
  "pops K 0 s = Some ([], s)"
| "pops K (Suc n) s =
     (case cons_getc K s of
        None \<Rightarrow> None
      | Some r \<Rightarrow>
          (case pops K n (snd r) of
             None \<Rightarrow> None
           | Some r2 \<Rightarrow> Some (fst r # fst r2, snd r2)))"

text \<open>The special key-codes of the header are not ASCII letters.\<close>

definition is_letter :: "32 word \<Rightarrow> bool" where
  "is_letter c \<longleftrightarrow>
     word_sle (ucast (ch CHR ''a'')) c \<and> word_sle c (ucast (ch CHR ''z'')) \<or>
     word_sle (ucast (ch CHR ''A'')) c \<and> word_sle c (ucast (ch CHR ''Z''))"

definition special_keys :: "hdr \<Rightarrow> bool" where
  "special_keys K \<longleftrightarrow>
     (\<forall>k \<in> set [KEY_HOME K, KEY_END K, KEY_UP K, KEY_DN K, KEY_LF K, KEY_RT K,
                 KEY_PGUP K, KEY_PGDN K, KEY_INS K, KEY_DEL K].
        \<not> is_letter (ucast (ucast k :: 8 word)))"

text \<open>
  The globals at boot (C statics are zero) on a machine whose ports all read \<open>v\<close> for
  ever and which has no display memory.
\<close>

definition boot :: "8 word \<Rightarrow> sys" where
  "boot v = \<lparr>inp = (\<lambda>p. sconst v), outlog = [], mem = (\<lambda>a. 0), backed = (\<lambda>a. False),
     memlog = [], serial_exists = False, addr_6845 = 0, crt_buf = 0, crt_pos = 0,
     kbd_shift = 0, cons = \<lparr>buf = replicate 512 0, rpos = 0, wpos = 0\<rparr>\<rparr>"

text \<open>
  The key-press path of \<^verbatim>\<open>kbd_proc_data\<close> (lines 243 to 259) as functions of the
  modifier state and the scancode read: the table index, the modifier state after lines
  249 and 250, and the character after the CapsLock adjustment. Lemma \<open>kbd_press\<close> shows
  that they are what \<^verbatim>\<open>kbd_proc_data\<close> computes.
\<close>

definition press_index :: "32 word \<Rightarrow> 8 word \<Rightarrow> 8 word" where
  "press_index sh d = (if sh AND E0ESC \<noteq> 0 then d OR 0x80 else d)"

definition press_shift :: "32 word \<Rightarrow> 8 word \<Rightarrow> 32 word" where
  "press_shift sh d =
     ((sh AND NOT E0ESC) OR ucast (shiftcode (press_index sh d))) XOR ucast (togglecode (press_index sh d))"

definition press_char :: "hdr \<Rightarrow> 32 word \<Rightarrow> 8 word \<Rightarrow> 32 word" where
  "press_char K sh d =
     (let c = ucast ((charcode K ! unat (press_shift sh d AND (CTL OR SHIFT))) (press_index sh d))
      in if press_shift sh d AND CAPSLOCK \<noteq> 0 then caps_swap c else c)"

text \<open>The CapsLock adjustment on a byte.\<close>

definition caps8 :: "8 word \<Rightarrow> 8 word" where
  "caps8 b = (if 0x61 \<le> b \<and> b \<le> 0x7a then b - 0x20
              else if 0x41 \<le> b \<and> b \<le> 0x5a then b + 0x20 else b)"

text \<open>
  A PC at boot whose keyboard controller (status port \<open>0x64\<close>, data port \<open>0x60\<close>)
  delivers the scancodes \<open>ds\<close> and then has no data, with modifier state \<open>sh\<close>.
\<close>

definition kbd_sys :: "32 word \<Rightarrow> 8 word list \<Rightarrow> sys" where
  "kbd_sys sh ds = (boot 0)\<lparr>inp := (\<lambda>p. sconst 0)(0x64 := replicate (length ds) 1 @- sconst 0, 0x60 := ds @- sconst 0),
      kbd_shift := sh\<rparr>"

text \<open>
  The read-back test of \<^verbatim>\<open>cga_init\<close> (line 108) succeeds: the cell, read after the
  sentinel was written to it, holds the sentinel.
\<close>

definition reads_back :: "hdr \<Rightarrow> sys \<Rightarrow> bool" where
  "reads_back K s \<longleftrightarrow>
     fst (mem_read (KERNBASE K + CGA_BUFF K)
            (mem_write (KERNBASE K + CGA_BUFF K) 0xa55a
               (snd (mem_read (KERNBASE K + CGA_BUFF K) s)))) = 0xa55a"

text \<open>
  A PC with colour display memory from \<open>0xF00B8000\<close>, every cell holding a blank
  (\<open>0x0720\<close>); \<open>boot 0\<close> itself has no display memory at all.
\<close>

definition vga_pc :: sys where
  "vga_pc = (boot 0)\<lparr>mem := (\<lambda>a. 0x0720), backed := (\<lambda>a. 0xF00B8000 \<le> a \<and> a < 0xF00C0000)\<rparr>"

text \<open>\<open>pending\<close> on the array and the two indices.\<close>

definition ring :: "8 word list \<Rightarrow> nat \<Rightarrow> nat \<Rightarrow> 8 word list" where
  "ring b r w = (if r \<le> w then map (nth b) [r..<w] else map (nth b) ([r..<512] @ [0..<w]))"

text \<open>
  A source as \<^verbatim>\<open>cons_intr\<close> is given in this file: it leaves the buffer and its
  cursors alone and returns \<open>-1\<close> or a byte. Both \<^verbatim>\<open>serial_proc_data\<close> and
  \<^verbatim>\<open>kbd_proc_data\<close> are such sources.
\<close>

definition byte_source :: "(sys \<Rightarrow> 32 word \<times> sys) \<Rightarrow> bool" where
  "byte_source proc \<longleftrightarrow>
     (\<forall>s. cons (snd (proc s)) = cons s \<and>
          (fst (proc s) = - 1 \<or> (\<exists>b :: 8 word. fst (proc s) = ucast b)))"

text \<open>The cursors are in range and no byte between them is zero.\<close>

definition nonzero_ring :: "cons_t \<Rightarrow> bool" where
  "nonzero_ring k \<longleftrightarrow> cons_ok k \<and> 0 \<notin> set (pending k)"

text \<open>
  What a store does to the bytes held between the cursors: the ring holds at most 511
  bytes; a store into a ring that holds 511 brings \<^verbatim>\<open>wpos\<close> onto \<^verbatim>\<open>rpos\<close>, so that
  none is held any more (lemma \<open>pending_store\<close>).
\<close>

definition q_put :: "8 word \<Rightarrow> 8 word list \<Rightarrow> 8 word list" where
  "q_put b q = (if length q = 511 then [] else q @ [b])"

text \<open>No input is pending on either device, now and later.\<close>

definition quiet :: "hdr \<Rightarrow> sys \<Rightarrow> bool" where
  "quiet K s \<longleftrightarrow>
     (serial_exists s \<longrightarrow> serial_delivers [] (inp s (COM1 + COM_LSR)) (inp s (COM1 + COM_RX))) \<and>
     kbd_idle K s"

text \<open>
  A PC at boot with a serial port (line status \<open>0x3fd\<close>, receive buffer \<open>0x3f8\<close>)
  that delivers the bytes \<open>bs\<close> and then has no data, and an idle keyboard.
\<close>

definition serial_sys :: "8 word list \<Rightarrow> sys" where
  "serial_sys bs = (boot 0)\<lparr>inp := (\<lambda>p. sconst 0)(0x3fd := replicate (length bs) 1 @- sconst 0,
       0x3f8 := bs @- sconst 0), serial_exists := True\<rparr>"

text \<open>513 nonzero bytes, \<open>1, 2, \<dots>, 255, 1, 2, \<dots>\<close>, and 512 bytes \<open>0x41\<close>.\<close>

definition ovf_bytes :: "8 word list" where
  "ovf_bytes = map (\<lambda>n. of_nat (n mod 255 + 1)) [0..<513]"

definition full_bytes :: "8 word list" where
  "full_bytes = replicate 512 0x41"


section \<open>Port reads and writes of the basic operations\<close>

lemma outlog_inb [simp]: "outlog (snd (inb p s)) = outlog s"
  by (simp add: inb_def)

lemma outlog_delay [simp]: "outlog (delay s) = outlog s"
  by (simp add: delay_def)

lemma outlog_outb [simp]: "outlog (outb p v s) = outlog s @ [(p, v)]"
  by (simp add: outb_def)

lemma serial_putc_loop_outlog: "outlog (snd (serial_putc_loop i s)) = outlog s"
proof (induction i s rule: serial_putc_loop.induct)
  case (1 i s)
  show ?case
    using "1.IH" by (subst serial_putc_loop.simps) (simp add: Let_def)
qed

lemma serial_putc_loop_bound:
  "i \<le> 12800 \<Longrightarrow> fst (serial_putc_loop i s) \<le> 12800"
proof (induction i s rule: serial_putc_loop.induct)
  case (1 i s)
  show ?case
    using "1.IH" "1.prems" by (subst serial_putc_loop.simps) (simp add: Let_def)
qed

lemma lpt_putc_loop_outlog: "outlog (snd (lpt_putc_loop i s)) = outlog s"
proof (induction i s rule: lpt_putc_loop.induct)
  case (1 i s)
  show ?case
    using "1.IH" by (subst lpt_putc_loop.simps) (simp add: Let_def)
qed

lemma lpt_putc_loop_bound:
  "i \<le> 12800 \<Longrightarrow> fst (lpt_putc_loop i s) \<le> 12800"
proof (induction i s rule: lpt_putc_loop.induct)
  case (1 i s)
  show ?case
    using "1.IH" "1.prems" by (subst lpt_putc_loop.simps) (simp add: Let_def)
qed

section \<open>Words, bits and bytes\<close>

lemma unat_ucast8 : "unat (ucast (x :: 8 word) :: 32 word) = unat x"
proof -
  have "unat x < 2 ^ 8" using unsigned_less [of x] by simp
  then have "unat x < 2 ^ 32" by simp
  then show ?thesis by (simp add: unsigned_ucast_eq take_bit_nat_eq_self)
qed

lemma ucast8_eq_iff: "(ucast (x :: 8 word) = (ucast (y :: 8 word) :: 32 word)) = (x = y)"
  by (simp add: word_unat_eq_iff unat_ucast8)

lemma ucast_ff: "(ucast (x :: 8 word) = (0xff :: 32 word)) = (x = 0xff)" 
  using ucast8_eq_iff [of x "0xff"] by simp

lemma shiftcode_vals: "shiftcode d \<in> {0, 1, 2, 4}"
  by (simp add: shiftcode_def table_def mod_defs)

lemma togglecode_vals: "togglecode d \<in> {0, 8, 16, 32}"
  by (simp add: togglecode_def table_def mod_defs)

lemma mask_bit: "(x :: 32 word) AND 2 ^ n \<noteq> 0 \<longleftrightarrow> bit x n"
  using and_exp_eq_0_iff_not_bit [of x n] by simp

lemma ctl_bit: "(x :: 32 word) AND CTL \<noteq> 0 \<longleftrightarrow> bit x 1"
  using mask_bit [of x 1] by (simp add: CTL_def)

lemma b1: "bit (((sh AND NOT E0ESC) OR ucast (shiftcode d)) XOR ucast (togglecode d)) (Suc 0) = (bit sh (Suc 0) \<or> shiftcode d = 2)"
  using shiftcode_vals [of d] togglecode_vals [of d]
  by (auto simp: bit_simps mod_defs)

lemma idx: "bit (x::32 word) (Suc 0) \<Longrightarrow> unat (x AND 3) = 2 \<or> unat (x AND 3) = 3"
proof -
  assume b: "bit x (Suc 0)"
  have "x AND 3 \<le> 3" by (rule word_and_le1)
  then have "unat (x AND 3) \<le> 3" by (simp add: word_le_nat_alt)
  moreover have "unat (x AND 3) \<noteq> 0"
  proof
    assume "unat (x AND 3) = 0"
    then have "x AND 3 = 0" by (simp add: unat_eq_0)
    then have "bit (x AND 3) (Suc 0) = False" by simp
    then show False using b by (simp add: bit_simps)
  qed
  moreover have "unat (x AND 3) \<noteq> 1"
  proof
    assume "unat (x AND 3) = 1"
    then have "x AND 3 = 1" by (simp add: word_unat_eq_iff)
    then have "bit (x AND 3) (Suc 0) = False" by simp
    then show False using b by (simp add: bit_simps)
  qed
  ultimately show ?thesis by arith
qed

lemma bit_powi: "bit (2 ^ k :: int) n \<longleftrightarrow> n = k"
  by (auto simp: bit_exp_iff)

lemma bit_nums [simp]:
  "bit (1 :: int) n \<longleftrightarrow> n = 0"
  "bit (2 :: int) n \<longleftrightarrow> n = 1"
  "bit (4 :: int) n \<longleftrightarrow> n = 2"
  "bit (8 :: int) n \<longleftrightarrow> n = 3"
  "bit (16 :: int) n \<longleftrightarrow> n = 4"
  "bit (32 :: int) n \<longleftrightarrow> n = 5"
  "bit (64 :: int) n \<longleftrightarrow> n = 6"
  using bit_powi [of 0 n] bit_powi [of 1 n] bit_powi [of 2 n] bit_powi [of 3 n]
    bit_powi [of 4 n] bit_powi [of 5 n] bit_powi [of 6 n]
  by simp_all

lemma and_nums:
  "(x :: 32 word) AND 1 = 0 \<longleftrightarrow> \<not> bit x 0"
  "(x :: 32 word) AND 2 = 0 \<longleftrightarrow> \<not> bit x 1"
  "(x :: 32 word) AND 4 = 0 \<longleftrightarrow> \<not> bit x 2"
  "(x :: 32 word) AND 8 = 0 \<longleftrightarrow> \<not> bit x 3"
  "(x :: 32 word) AND 64 = 0 \<longleftrightarrow> \<not> bit x 6"
  using and_exp_eq_0_iff_not_bit [of x 0] and_exp_eq_0_iff_not_bit [of x 1]
    and_exp_eq_0_iff_not_bit [of x 2] and_exp_eq_0_iff_not_bit [of x 3]
    and_exp_eq_0_iff_not_bit [of x 6]
  by simp_all


lemma sint_ucast8: "sint (ucast (b :: 8 word) :: 32 word) = uint b"
proof -
  have "uint b < 2 ^ 8" using uint_lt2p [of b] by simp
  then have "uint b < 2 ^ 31" by simp
  moreover have "- (2 ^ 31) \<le> uint b"
    by (rule order_trans [OF _ uint_nonnegative]) simp
  ultimately have "signed_take_bit 31 (uint b) = uint b"
    by (rule signed_take_bit_int_eq_self [rotated])
  then show ?thesis by (simp add: signed_ucast_eq)
qed

lemma sle_ucast8:
  "word_sle (ucast (a :: 8 word) :: 32 word) (ucast (b :: 8 word)) \<longleftrightarrow> a \<le> b"
  by (simp add: word_sle_eq sint_ucast8 word_le_def)

lemma ucast8_sub: "(y :: 8 word) \<le> x \<Longrightarrow> (ucast x :: 32 word) - ucast y = ucast (x - y)"
proof -
  assume le: "y \<le> x"
  then have "(ucast y :: 32 word) \<le> ucast x"
    by (simp add: word_le_nat_alt unat_ucast8)
  then show ?thesis using le
    by (simp add: word_unat_eq_iff unat_ucast8 unat_sub)
qed

lemma ucast8_add: "unat (x :: 8 word) + unat (y :: 8 word) < 256 \<Longrightarrow> (ucast x :: 32 word) + ucast y = ucast (x + y)"
  by (simp add: word_unat_eq_iff unat_ucast8 unat_word_ariths)

lemma is_letter_ucast8:
  "is_letter (ucast (b :: 8 word)) \<longleftrightarrow> 0x61 \<le> b \<and> b \<le> 0x7a \<or> 0x41 \<le> b \<and> b \<le> 0x5a"
  using sle_ucast8 [of "0x61" b] sle_ucast8 [of b "0x7a"] sle_ucast8 [of "0x41" b] sle_ucast8 [of b "0x5a"]
  by (simp add: is_letter_def ch_def)

lemma caps_swap_ucast8: "caps_swap (ucast (b :: 8 word)) = ucast (caps8 b)"
proof -
  have s1: "(ucast b :: 32 word) - 32 = ucast (b - 32)" if "97 \<le> b"
  proof -
    have "(32 :: 8 word) \<le> b" using that by (simp add: word_le_nat_alt)
    then show ?thesis using ucast8_sub [of 32 b] by simp
  qed
  have s2: "(ucast b :: 32 word) + 32 = ucast (b + 32)" if "b \<le> 90"
  proof -
    have "unat b + unat (32 :: 8 word) < 256" using that by (simp add: word_le_nat_alt)
    then show ?thesis using ucast8_add [of b 32] by simp
  qed
  show ?thesis
    using sle_ucast8 [of "0x61" b] sle_ucast8 [of b "0x7a"] sle_ucast8 [of "0x41" b] sle_ucast8 [of b "0x5a"]
    by (simp add: caps_swap_def caps8_def ch_def s1 s2)
qed

lemma caps_swap_not_letter: "\<not> is_letter c \<Longrightarrow> caps_swap c = c"
  by (auto simp: is_letter_def caps_swap_def)

section \<open>The fields that port operations leave alone\<close>

lemma inb_simps [simp]:
  "fst (inb p s) = shd (inp s p)"
  "inp (snd (inb p s)) = (inp s)(p := stl (inp s p))"
  "serial_exists (snd (inb p s)) = serial_exists s"
  "cons (snd (inb p s)) = cons s"
  "kbd_shift (snd (inb p s)) = kbd_shift s"
  "mem (snd (inb p s)) = mem s"
  "memlog (snd (inb p s)) = memlog s"
  "backed (snd (inb p s)) = backed s"
  by (simp_all add: inb_def)

lemma outb_simps [simp]:
  "inp (outb p v s) = inp s"
  "serial_exists (outb p v s) = serial_exists s"
  "cons (outb p v s) = cons s"
  "kbd_shift (outb p v s) = kbd_shift s"
  "mem (outb p v s) = mem s"
  "memlog (outb p v s) = memlog s"
  "backed (outb p v s) = backed s"
  by (simp_all add: outb_def)


section \<open>The keyboard decoder\<close>

lemma and_not_noop: "(x :: 32 word) AND m = 0 \<Longrightarrow> x AND NOT m = x"
  by (auto simp: bit_eq_iff bit_simps)

lemma not_e0: "(d :: 8 word) AND 0x80 = 0 \<Longrightarrow> d \<noteq> 0xe0"
  by auto

lemma kbd_press:
  assumes "ucast (kbd_status K s) AND KBS_DIB K \<noteq> 0" "kbd_data K s AND 0x80 = 0"
  shows "fst (kbd_proc_data K s) = press_char K (kbd_shift s) (kbd_data K s)"
    and "kbd_shift (snd (kbd_proc_data K s)) = press_shift (kbd_shift s) (kbd_data K s)"
    and "cons (snd (kbd_proc_data K s)) = cons s"
    and "outlog (snd (kbd_proc_data K s)) = outlog s @
          (if NOT (press_shift (kbd_shift s) (kbd_data K s)) AND (CTL OR ALT) = 0 \<and>
              press_char K (kbd_shift s) (kbd_data K s) = KEY_DEL K then [(0x92, 0x3)] else [])"
  using assms not_e0 [of "kbd_data K s"]
  by (simp_all add: kbd_proc_data_def kbd_status_def kbd_data_def Let_def press_char_def press_shift_def
      press_index_def and_not_noop)

lemma shift_bit: "(x :: 32 word) AND SHIFT \<noteq> 0 \<longleftrightarrow> bit x 0"
  using mask_bit [of x 0] by (simp add: SHIFT_def)

lemma charcode_ctl:
  assumes "x AND CTL \<noteq> 0"
  shows "charcode K ! unat (x AND (CTL OR SHIFT)) = ctlmap K"
proof -
  have "bit x (Suc 0)" using assms by (simp add: ctl_bit)
  then have "unat (x AND 3) = 2 \<or> unat (x AND 3) = 3" by (rule idx)
  moreover have "CTL OR SHIFT = 3" by (simp add: mod_defs)
  ultimately show ?thesis by (auto simp: charcode_def)
qed

lemma press_index_noshift: "press_index (sh AND NOT SHIFT) d = press_index sh d"
proof -
  have "(sh AND NOT SHIFT) AND E0ESC = sh AND E0ESC"
    by (rule bit_word_eqI) (auto simp: bit_simps mod_defs)
  then show ?thesis by (simp add: press_index_def)
qed

lemma press_shift_ctl: "sh AND CTL \<noteq> 0 \<Longrightarrow> press_shift sh d AND CTL \<noteq> 0"
  using shiftcode_vals [of "press_index sh d"] togglecode_vals [of "press_index sh d"]
  by (auto simp: press_shift_def and_nums bit_simps mod_defs)

lemma press_shift_noshift_caps:
  "press_shift (sh AND NOT SHIFT) d AND CAPSLOCK = press_shift sh d AND CAPSLOCK"
proof -
  have "((x AND NOT SHIFT OR a) XOR b) AND CAPSLOCK = ((x OR a) XOR b) AND CAPSLOCK" for x a b :: "32 word"
    by (rule bit_word_eqI) (auto simp: bit_simps mod_defs)
  moreover have "(sh AND NOT SHIFT) AND NOT E0ESC = (sh AND NOT E0ESC) AND NOT SHIFT"
    by (simp add: ac_simps)
  ultimately show ?thesis
    by (simp add: press_shift_def press_index_noshift)
qed

lemma noshift_ctl: "sh AND CTL \<noteq> 0 \<Longrightarrow> (sh AND NOT SHIFT) AND CTL \<noteq> 0"
  by (auto simp: and_nums bit_simps mod_defs)

lemma press_char_ctl:
  assumes "sh AND CTL \<noteq> 0"
  shows "press_char K sh d =
     (if press_shift sh d AND CAPSLOCK \<noteq> 0
      then caps_swap (ucast (ctlmap K (press_index sh d)))
      else ucast (ctlmap K (press_index sh d)))"
  using press_shift_ctl [OF assms, of d]
  by (simp add: press_char_def charcode_ctl Let_def)


lemma kbd_e0:
  assumes "ucast (kbd_status K s) AND KBS_DIB K \<noteq> 0" "kbd_data K s = 0xe0"
  shows "fst (kbd_proc_data K s) = 0"
    and "kbd_shift (snd (kbd_proc_data K s)) = kbd_shift s OR E0ESC"
    and "cons (snd (kbd_proc_data K s)) = cons s"
    and "outlog (snd (kbd_proc_data K s)) = outlog s"
  using assms
  by (simp_all add: kbd_proc_data_def kbd_status_def kbd_data_def Let_def)

lemma kbd_release:
  assumes "ucast (kbd_status K s) AND KBS_DIB K \<noteq> 0" "kbd_data K s AND 0x80 \<noteq> 0"
  shows "fst (kbd_proc_data K s) = 0"
    and "cons (snd (kbd_proc_data K s)) = cons s"
    and "outlog (snd (kbd_proc_data K s)) = outlog s"
  using assms
  by (simp_all add: kbd_proc_data_def kbd_status_def kbd_data_def Let_def)

lemma kbd_nodata:
  assumes "ucast (kbd_status K s) AND KBS_DIB K = 0"
  shows "kbd_proc_data K s = (- 1, snd (inb (KBSTATP K) s))"
  using assms
  by (simp add: kbd_proc_data_def kbd_status_def Let_def)

lemma high_index: "128 \<le> unat ((d :: 8 word) OR 0x80)"
proof -
  have "(0x80 :: 8 word) \<le> 0x80 OR d" by (rule le_word_or2)
  then have "unat (0x80 :: 8 word) \<le> unat (0x80 OR d)" by (simp only: word_le_nat_alt)
  moreover have "unat (0x80 :: 8 word) = 128" by simp
  moreover have "0x80 OR d = d OR 0x80" by (simp add: ac_simps)
  ultimately show ?thesis by simp
qed

lemma high_neq: "n < 128 \<Longrightarrow> (d :: 8 word) OR 0x80 \<noteq> of_nat n"
  using high_index [of d] by (auto simp: unat_of_nat)

lemma shiftcode_high: "shiftcode (d OR 0x80) \<in> {0, 2, 4}"
  using high_neq [of "0x2A" d] high_neq [of "0x36" d]
  by (simp add: shiftcode_def table_def mod_defs)

lemma togglecode_high: "togglecode (d OR 0x80) = 0"
  using high_neq [of "0x3A" d] high_neq [of "0x45" d] high_neq [of "0x46" d]
  by (simp add: togglecode_def table_def mod_defs)

lemma e0_set: "(sh OR E0ESC) AND E0ESC \<noteq> 0"
  by (simp add: E0ESC_def)

lemma press_index_e0: "press_index (sh OR E0ESC) d = d OR 0x80"
  using e0_set [of sh] by (simp add: press_index_def)

lemma press_shift_e0_clear: "press_shift (sh OR E0ESC) d AND E0ESC = 0"
  using shiftcode_high [of d]
  apply (simp add: press_shift_def press_index_e0 togglecode_high)
  apply (auto simp: and_nums bit_simps mod_defs)
  done

lemma press_shift_e0_caps:
  "press_shift (sh OR E0ESC) d AND CAPSLOCK = sh AND CAPSLOCK"
  using shiftcode_high [of d]
  apply (simp add: press_shift_def press_index_e0 togglecode_high)
  apply (rule bit_word_eqI)
  apply (auto simp: bit_simps mod_defs)
  done

lemma table_high_not_letter:
  assumes "special_keys K"
  shows "\<not> is_letter (ucast (normalmap K (d OR 0x80)))"
    and "\<not> is_letter (ucast (shiftmap K (d OR 0x80)))"
    and "\<not> is_letter (ucast (ctlmap K (d OR 0x80)))"
  using assms high_index [of d]
  by (auto simp: special_keys_def normalmap_def shiftmap_def ctlmap_def table_def is_letter_ucast8
      ch_def C_of_def)

lemma charcode_cases:
  "charcode K ! unat (x AND (CTL OR SHIFT)) \<in> {normalmap K, shiftmap K, ctlmap K}"
proof -
  have "x AND 3 \<le> 3" by (rule word_and_le1)
  then have "unat (x AND 3) \<le> 3" by (simp add: word_le_nat_alt)
  moreover have "n = 0 \<or> n = 1 \<or> n = 2 \<or> n = 3" if "n \<le> 3" for n :: nat
    using that by arith
  ultimately have "unat (x AND 3) = 0 \<or> unat (x AND 3) = 1 \<or> unat (x AND 3) = 2 \<or> unat (x AND 3) = 3"
    by blast
  moreover have "CTL OR SHIFT = 3" by (simp add: mod_defs)
  ultimately show ?thesis by (auto simp: charcode_def)
qed

lemma press_char_e0:
  assumes "special_keys K"
  shows "press_char K (sh OR E0ESC) d =
    ucast ((charcode K ! unat (press_shift (sh OR E0ESC) d AND (CTL OR SHIFT))) (d OR 0x80))"
proof -
  let ?T = "charcode K ! unat (press_shift (sh OR E0ESC) d AND (CTL OR SHIFT))"
  have "?T \<in> {normalmap K, shiftmap K, ctlmap K}" by (rule charcode_cases)
  then have "\<not> is_letter (ucast (?T (d OR 0x80)))"
    using table_high_not_letter [OF assms, of d] by auto
  then have "caps_swap (ucast (?T (d OR 0x80))) = ucast (?T (d OR 0x80))"
    by (rule caps_swap_not_letter)
  then show ?thesis
    by (simp add: press_char_def press_index_e0 Let_def)
qed


lemma special_pc: "special_keys pc_hdr"
  by (simp add: special_keys_def pc_hdr_def is_letter_ucast8)


lemma bit_six [simp]: "bit (6 :: int) n \<longleftrightarrow> n = 1 \<or> n = 2"
proof -
  have "(6 :: int) = 2 OR 4" by simp
  then show ?thesis by (simp only: bit_or_iff bit_nums)
qed




lemma ucast8_not_m1: "(ucast (b :: 8 word) :: 32 word) \<noteq> - 1"
proof
  assume "(ucast b :: 32 word) = - 1"
  then have "unat (ucast b :: 32 word) = unat (- 1 :: 32 word)" by simp
  moreover have "unat (- 1 :: 32 word) = 4294967295"
    by (simp add: unsigned_minus_1_eq_mask mask_eq_exp_minus_1)
  ultimately have "unat b = 4294967295" by (simp add: unat_ucast8)
  moreover have "unat b < 2 ^ 8" using unsigned_less [of b] by simp
  ultimately show False by simp
qed

lemma press_char_byte: "\<exists>b :: 8 word. press_char K sh d = ucast b"
  by (simp add: press_char_def Let_def caps_swap_ucast8) blast

lemma cons_intr_store:
  assumes "fst (proc s) \<noteq> - 1" "fst (proc s) \<noteq> 0"
  shows "cons_intr proc s = cons_intr proc (cons_store (fst (proc s)) (snd (proc s)))"
  using assms by (subst cons_intr.simps) (simp add: Let_def)

lemma cons_intr_skip:
  assumes "fst (proc s) = 0"
  shows "cons_intr proc s = cons_intr proc (snd (proc s))"
  using assms by (subst cons_intr.simps) (simp add: Let_def)

lemma cons_intr_stop:
  assumes "fst (proc s) = - 1"
  shows "cons_intr proc s = Some (snd (proc s))"
  using assms by (subst cons_intr.simps) (simp add: Let_def)

lemma cons_store_simps:
  "buf (cons (cons_store c s)) = (buf (cons s))[unat (wpos (cons s)) := ucast c]"
  "wpos (cons (cons_store c s)) = (if wpos (cons s) + 1 = CONSBUFSIZE then 0 else wpos (cons s) + 1)"
  "rpos (cons (cons_store c s)) = rpos (cons s)"
  "inp (cons_store c s) = inp s"
  "outlog (cons_store c s) = outlog s"
  "kbd_shift (cons_store c s) = kbd_shift s"
  "serial_exists (cons_store c s) = serial_exists s"
  by (simp_all add: cons_store_def Let_def)


lemmas kbd_eval = kbd_proc_data_def kbd_status_def kbd_data_def kbd_sys_def boot_def inb_def outb_def
  pc_hdr_def Let_def mod_defs shiftcode_def togglecode_def table_def charcode_def
  normalmap_def shiftmap_def ctlmap_def caps_swap_def ch_def C_of_def NO_def word_sle_eq


section \<open>Transmit: bounded wait, one write\<close>

text \<open>When the ready bit never shows, the wait runs its full budget of 12800 rounds.\<close>

lemma inp_delay: "p \<noteq> 0x84 \<Longrightarrow> inp (delay s) p = inp s p"
  by (simp add: delay_def)

lemma serial_putc_loop_never_ready:
  assumes "\<forall>x \<in> sset (inp s (COM1 + COM_LSR)). ucast x AND COM_LSR_TXRDY = (0 :: 32 word)"
    and "i \<le> 12800"
  shows "fst (serial_putc_loop i s) = 12800"
  using assms
proof (induction i s rule: serial_putc_loop.induct)
  case (1 i s)
  let ?r = "inb (COM1 + COM_LSR) s"
  have nr: "ucast (fst ?r) AND COM_LSR_TXRDY = (0 :: 32 word)"
    using "1.prems"(1) by (simp add: shd_sset)
  show ?case
  proof (cases "i < 12800")
    case True
    have "COM1 + COM_LSR \<noteq> 0x84" by (simp add: com_defs)
    then have "inp (delay (snd ?r)) (COM1 + COM_LSR) = stl (inp s (COM1 + COM_LSR))"
      by (simp add: inp_delay)
    then have "\<forall>x \<in> sset (inp (delay (snd ?r)) (COM1 + COM_LSR)). ucast x AND COM_LSR_TXRDY = (0 :: 32 word)"
      using "1.prems"(1) by (auto dest: stl_sset)
    then have "fst (serial_putc_loop (i + 1) (delay (snd ?r))) = 12800"
      using "1.IH" [OF refl] nr True by simp
    then show ?thesis
      using nr True by (subst serial_putc_loop.simps) (simp add: Let_def)
  next
    case False
    then show ?thesis
      using "1.prems"(2) by (subst serial_putc_loop.simps) (simp add: Let_def)
  qed
qed

lemma lpt_putc_loop_never_ready:
  assumes "\<forall>x \<in> sset (inp s (0x378 + 1)). ucast x AND (0x80 :: 32 word) = 0"
    and "i \<le> 12800"
  shows "fst (lpt_putc_loop i s) = 12800"
  using assms
proof (induction i s rule: lpt_putc_loop.induct)
  case (1 i s)
  let ?r = "inb (0x378 + 1) s"
  have nr: "ucast (fst ?r) AND (0x80 :: 32 word) = 0"
    using "1.prems"(1) by (simp add: shd_sset)
  show ?case
  proof (cases "i < 12800")
    case True
    have "inp (delay (snd ?r)) (0x378 + 1) = stl (inp s (0x378 + 1))"
      by (simp add: inp_delay)
    then have "\<forall>x \<in> sset (inp (delay (snd ?r)) (0x378 + 1)). ucast x AND (0x80 :: 32 word) = 0"
      using "1.prems"(1) by (auto dest: stl_sset)
    then have "fst (lpt_putc_loop (i + 1) (delay (snd ?r))) = 12800"
      using "1.IH" [OF refl] nr True by simp
    then show ?thesis
      using nr True by (subst lpt_putc_loop.simps) (simp add: Let_def)
  next
    case False
    then show ?thesis
      using "1.prems"(2) by (subst lpt_putc_loop.simps) (simp add: Let_def)
  qed
qed

text \<open>
  C7. \<^verbatim>\<open>serial_putc\<close> and \<^verbatim>\<open>lpt_putc\<close> are total functions of the state, whatever the
  status registers answer. In each, the wait loop ends with its counter at most 12800, and
  the byte is then written to the data port exactly once: the port writes of
  \<^verbatim>\<open>serial_putc\<close> are the single write of the byte to \<open>0x3f8\<close>, those of
  \<^verbatim>\<open>lpt_putc\<close> the write of the byte to \<open>0x378\<close> followed by the two strobe writes to
  \<open>0x37a\<close>. No hypothesis is made on the status bits that were read; when the ready
  bit never shows, the counter ends at 12800 (the two lemmas above) and the write is made
  all the same.
\<close>

theorem putc_bounded_wait_one_write:
  "fst (serial_putc_loop 0 s) \<le> 12800 \<and>
   outlog (serial_putc c s) = outlog s @ [(0x3f8, ucast c)] \<and>
   fst (lpt_putc_loop 0 s) \<le> 12800 \<and>
   outlog (lpt_putc c s) = outlog s @ [(0x378, ucast c), (0x37a, 0x0d), (0x37a, 0x08)]"
proof -
  have a: "fst (serial_putc_loop 0 s) \<le> 12800"
    by (rule serial_putc_loop_bound) simp
  have b: "outlog (serial_putc c s) = outlog s @ [(0x3f8, ucast c)]"
    by (simp add: serial_putc_def serial_putc_loop_outlog com_defs)
  have c: "fst (lpt_putc_loop 0 s) \<le> 12800"
    by (rule lpt_putc_loop_bound) simp
  have d: "outlog (lpt_putc c s) = outlog s @ [(0x378, ucast c), (0x37a, 0x0d), (0x37a, 0x08)]"
    by (simp add: lpt_putc_def lpt_putc_loop_outlog)
  from a b c d show ?thesis by simp
qed

section \<open>Decoder claims\<close>

text \<open>
  C10. Ctrl takes precedence over Shift. When a key press is decoded with both the Ctrl
  and the Shift bit set, the value returned is the one returned from the same state with
  the Shift bit cleared; the table selected by the modifier state that line 252 indexes
  with is \<^verbatim>\<open>ctlmap\<close>, and the value returned is the \<^verbatim>\<open>ctlmap\<close> entry of the scancode
  (ORed with \<open>0x80\<close> after an \<open>0xE0\<close> prefix), up to the CapsLock adjustment. The
  \<^verbatim>\<open>shiftmap\<close> does not occur in it.
\<close>

theorem ctl_over_shift:
  assumes "kbd_shift s AND CTL \<noteq> 0" and "kbd_shift s AND SHIFT \<noteq> 0"
    and "ucast (kbd_status K s) AND KBS_DIB K \<noteq> 0" and "kbd_data K s AND 0x80 = 0"
  shows "fst (kbd_proc_data K s) = fst (kbd_proc_data K (s\<lparr>kbd_shift := kbd_shift s AND NOT SHIFT\<rparr>)) \<and>
    charcode K ! unat (kbd_shift (snd (kbd_proc_data K s)) AND (CTL OR SHIFT)) = ctlmap K \<and>
    fst (kbd_proc_data K s) \<in>
      {ucast (ctlmap K (press_index (kbd_shift s) (kbd_data K s))),
       caps_swap (ucast (ctlmap K (press_index (kbd_shift s) (kbd_data K s))))}"
proof -
  let ?t = "s\<lparr>kbd_shift := kbd_shift s AND NOT SHIFT\<rparr>"
  have st: "kbd_status K ?t = kbd_status K s" "kbd_data K ?t = kbd_data K s"
    by (simp_all add: kbd_status_def kbd_data_def inb_def)
  have a: "fst (kbd_proc_data K s) = press_char K (kbd_shift s) (kbd_data K s)"
    using assms by (simp add: kbd_press)
  have b: "fst (kbd_proc_data K ?t) = press_char K (kbd_shift s AND NOT SHIFT) (kbd_data K s)"
    using assms st kbd_press(1) [of K ?t] by simp
  have c: "press_char K (kbd_shift s AND NOT SHIFT) (kbd_data K s) = press_char K (kbd_shift s) (kbd_data K s)"
    using assms(1) noshift_ctl [OF assms(1)]
    by (simp add: press_char_ctl press_shift_noshift_caps press_index_noshift)
  have d: "kbd_shift (snd (kbd_proc_data K s)) = press_shift (kbd_shift s) (kbd_data K s)"
    using assms by (simp add: kbd_press)
  have e: "charcode K ! unat (kbd_shift (snd (kbd_proc_data K s)) AND (CTL OR SHIFT)) = ctlmap K"
    unfolding d using press_shift_ctl [OF assms(1)] by (rule charcode_ctl)
  show ?thesis
    using a b c e assms(1) by (simp add: press_char_ctl)
qed

theorem ctl_over_shift_witness:
  "kbd_shift (kbd_sys (CTL OR SHIFT) [0x1E]) AND CTL \<noteq> 0 \<and>
   kbd_shift (kbd_sys (CTL OR SHIFT) [0x1E]) AND SHIFT \<noteq> 0 \<and>
   kbd_data pc_hdr (kbd_sys (CTL OR SHIFT) [0x1E]) = 0x1E \<and>
   fst (kbd_proc_data pc_hdr (kbd_sys (CTL OR SHIFT) [0x1E])) = 1 \<and>
   fst (kbd_proc_data pc_hdr ((kbd_sys (CTL OR SHIFT) [0x1E])\<lparr>kbd_shift := CTL\<rparr>)) = 1 \<and>
   shiftmap pc_hdr 0x1E = ch CHR ''A'' \<and> ctlmap pc_hdr 0x1E = 1"
proof -
  let ?s = "kbd_sys (CTL OR SHIFT) [0x1E]"
  have h1: "kbd_shift ?s AND CTL \<noteq> 0" and h2: "kbd_shift ?s AND SHIFT \<noteq> 0"
    by (simp_all add: kbd_sys_def mod_defs)
  have h3: "ucast (kbd_status pc_hdr ?s) AND KBS_DIB pc_hdr \<noteq> 0" by (simp add: kbd_eval)
  have d: "kbd_data pc_hdr ?s = 0x1E" by (simp add: kbd_eval)
  have h4: "kbd_data pc_hdr ?s AND 0x80 = 0" unfolding d by simp
  have e: "kbd_shift ?s AND NOT SHIFT = CTL" by (simp add: kbd_sys_def mod_defs)
  have r: "fst (kbd_proc_data pc_hdr ?s) = 1" by (simp add: kbd_eval)
  have t: "shiftmap pc_hdr 0x1E = ch CHR ''A''" "ctlmap pc_hdr 0x1E = 1"
    by (simp_all add: shiftmap_def ctlmap_def table_def ch_def C_of_def)
  show ?thesis
    using ctl_over_shift [OF h1 h2 h3 h4] h1 h2 d r t unfolding e by simp
qed

text \<open>
  C6. The extended prefix. When the keyboard delivers \<open>0xE0\<close>, \<^verbatim>\<open>kbd_proc_data\<close>
  returns 0 (no character) and the escape bit is set afterwards. When it then delivers a
  press scancode, the escape bit is clear afterwards and the value returned is the entry of
  the selected table at the scancode ORed with \<open>0x80\<close>, for header constants whose
  special key-codes are not ASCII letters. On the PC instance, \<open>0xE0 0x48\<close> gives
  \<^verbatim>\<open>KEY_UP\<close>, which is not the base-table character of \<open>0x48\<close>.
\<close>

theorem e0_prefix_extended:
  assumes "ucast (kbd_status K s) AND KBS_DIB K \<noteq> 0" and "kbd_data K s = 0xe0"
    and "ucast (kbd_status K (snd (kbd_proc_data K s))) AND KBS_DIB K \<noteq> 0"
    and "kbd_data K (snd (kbd_proc_data K s)) AND 0x80 = 0"
    and "special_keys K"
  shows "fst (kbd_proc_data K s) = 0 \<and>
    kbd_shift (snd (kbd_proc_data K s)) AND E0ESC \<noteq> 0 \<and>
    kbd_shift (snd (kbd_proc_data K (snd (kbd_proc_data K s)))) AND E0ESC = 0 \<and>
    fst (kbd_proc_data K (snd (kbd_proc_data K s))) =
      ucast ((charcode K ! unat (kbd_shift (snd (kbd_proc_data K (snd (kbd_proc_data K s)))) AND (CTL OR SHIFT)))
               (kbd_data K (snd (kbd_proc_data K s)) OR 0x80))"
proof -
  let ?s1 = "snd (kbd_proc_data K s)"
  let ?d = "kbd_data K ?s1"
  have a: "fst (kbd_proc_data K s) = 0" and b: "kbd_shift ?s1 = kbd_shift s OR E0ESC"
    using assms(1,2) by (simp_all add: kbd_e0)
  have c: "kbd_shift ?s1 AND E0ESC \<noteq> 0"
    unfolding b by (rule e0_set)
  have d: "kbd_shift (snd (kbd_proc_data K ?s1)) = press_shift (kbd_shift s OR E0ESC) ?d"
    using kbd_press(2) [OF assms(3,4)] b by simp
  have e: "fst (kbd_proc_data K ?s1) = press_char K (kbd_shift s OR E0ESC) ?d"
    using kbd_press(1) [OF assms(3,4)] b by simp
  show ?thesis
    using a c by (simp add: d e press_shift_e0_clear press_char_e0 [OF assms(5)])
qed


theorem e0_prefix_extended_witness:
  "ucast (kbd_status pc_hdr (kbd_sys 0 [0xe0, 0x48])) AND KBS_DIB pc_hdr \<noteq> 0 \<and>
   kbd_data pc_hdr (kbd_sys 0 [0xe0, 0x48]) = 0xe0 \<and>
   kbd_data pc_hdr (snd (kbd_proc_data pc_hdr (kbd_sys 0 [0xe0, 0x48]))) = 0x48 \<and>
   special_keys pc_hdr \<and>
   kbd_shift (kbd_sys 0 [0xe0, 0x48]) AND E0ESC = 0 \<and>
   fst (kbd_proc_data pc_hdr (kbd_sys 0 [0xe0, 0x48])) = 0 \<and>
   kbd_shift (snd (kbd_proc_data pc_hdr (kbd_sys 0 [0xe0, 0x48]))) AND E0ESC \<noteq> 0 \<and>
   fst (kbd_proc_data pc_hdr (snd (kbd_proc_data pc_hdr (kbd_sys 0 [0xe0, 0x48])))) = KEY_UP pc_hdr \<and>
   ucast (normalmap pc_hdr 0x48) \<noteq> KEY_UP pc_hdr"
proof -
  let ?s = "kbd_sys 0 [0xe0, 0x48]"
  have s1: "snd (kbd_proc_data pc_hdr ?s) =
      ?s\<lparr>inp := (\<lambda>p. sconst 0)(0x64 := [1] @- sconst 0, 0x60 := [0x48] @- sconst 0), kbd_shift := 0x40\<rparr>"
    by (simp add: kbd_proc_data_def kbd_sys_def boot_def inb_def pc_hdr_def Let_def mod_defs)
  have h1: "ucast (kbd_status pc_hdr ?s) AND KBS_DIB pc_hdr \<noteq> 0"
    by (simp add: kbd_status_def kbd_sys_def boot_def pc_hdr_def)
  have h2: "kbd_data pc_hdr ?s = 0xe0"
    by (simp add: kbd_data_def kbd_sys_def boot_def pc_hdr_def)
  have h3: "ucast (kbd_status pc_hdr (snd (kbd_proc_data pc_hdr ?s))) AND KBS_DIB pc_hdr \<noteq> 0"
    unfolding s1 by (simp add: kbd_status_def kbd_sys_def boot_def pc_hdr_def)
  have h4: "kbd_data pc_hdr (snd (kbd_proc_data pc_hdr ?s)) = 0x48"
    unfolding s1 by (simp add: kbd_data_def kbd_sys_def boot_def pc_hdr_def)
  have h4': "kbd_data pc_hdr (snd (kbd_proc_data pc_hdr ?s)) AND 0x80 = 0"
    unfolding h4 by simp
  have e: "(charcode pc_hdr ! unat (x AND (CTL OR SHIFT))) 0xC8 = 0xE2" for x
    using charcode_cases [of pc_hdr x]
    by (auto simp: normalmap_def shiftmap_def ctlmap_def table_def pc_hdr_def)
  have n: "ucast (normalmap pc_hdr 0x48) \<noteq> KEY_UP pc_hdr"
    by (simp add: normalmap_def table_def pc_hdr_def ch_def)
  have k: "kbd_shift ?s AND E0ESC = 0" by (simp add: kbd_sys_def)
  have u: "KEY_UP pc_hdr = 0xE2" by (simp add: pc_hdr_def)
  have "fst (kbd_proc_data pc_hdr (snd (kbd_proc_data pc_hdr ?s))) = KEY_UP pc_hdr"
    using e0_prefix_extended [OF h1 h2 h3 h4' special_pc]
    unfolding h4 u by (simp add: e)
  then show ?thesis
    using e0_prefix_extended [OF h1 h2 h3 h4' special_pc] h1 h2 h4 special_pc n k
    by simp
qed

section \<open>Serial presence\<close>

lemma serial_init_exists:
  "serial_exists (serial_init s) \<longleftrightarrow> shd (inp s (COM1 + COM_LSR)) \<noteq> 0xff"
  by (simp add: serial_init_def Let_def ucast_ff)

text \<open>
  C4, as amended. If the line-status register reads \<open>0xff\<close> during \<^verbatim>\<open>serial_init\<close>,
  \<^verbatim>\<open>serial_exists\<close> is false afterwards. In every state in which it is false,
  \<^verbatim>\<open>serial_intr\<close> returns at once and changes nothing; \<^verbatim>\<open>serial_putc\<close> is not
  gated by the flag: its wait ends with the counter at most 12800 and it then writes the
  byte to port \<open>0x3f8\<close>.
\<close>

theorem serial_absent:
  assumes "shd (inp s (COM1 + COM_LSR)) = 0xff"
  shows "\<not> serial_exists (serial_init s) \<and>
    (\<forall>t c. \<not> serial_exists t \<longrightarrow>
       serial_intr t = Some t \<and>
       fst (serial_putc_loop 0 t) \<le> 12800 \<and>
       outlog (serial_putc c t) = outlog t @ [(0x3f8, ucast c)])"
proof -
  have a: "\<not> serial_exists (serial_init s)"
    using assms by (simp add: serial_init_exists)
  have b: "fst (serial_putc_loop 0 t) \<le> 12800" for t
    by (rule serial_putc_loop_bound) simp
  have c: "outlog (serial_putc c t) = outlog t @ [(0x3f8, ucast c)]" for c t
    by (simp add: serial_putc_def serial_putc_loop_outlog com_defs)
  show ?thesis using a b c by (simp add: serial_intr_def)
qed

theorem serial_absent_witness:
  "shd (inp (boot 0xff) (COM1 + COM_LSR)) = 0xff \<and>
   \<not> serial_exists (serial_init (boot 0xff)) \<and>
   serial_intr (serial_init (boot 0xff)) = Some (serial_init (boot 0xff)) \<and>
   outlog (serial_putc 0x41 (serial_init (boot 0xff))) =
     outlog (serial_init (boot 0xff)) @ [(0x3f8, 0x41)]"
proof -
  have h: "shd (inp (boot 0xff) (COM1 + COM_LSR)) = 0xff" by (simp add: boot_def)
  show ?thesis using serial_absent [OF h] h by simp
qed

text \<open>
  C4 as stated fails: on a machine whose ports all read \<open>0xff\<close>, \<^verbatim>\<open>serial_init\<close>
  leaves \<^verbatim>\<open>serial_exists\<close> false, and \<^verbatim>\<open>serial_putc\<close> afterwards still writes the
  byte \<open>0x41\<close> to port \<open>0x3f8\<close>.
\<close>

theorem serial_absent_counterexample:
  "shd (inp (boot 0xff) (COM1 + COM_LSR)) = 0xff \<and>
   \<not> serial_exists (serial_init (boot 0xff)) \<and>
   outlog (serial_init (boot 0xff)) =
     [(0x3fa, 0), (0x3fb, 0x80), (0x3f8, 12), (0x3f9, 0), (0x3fb, 0x03), (0x3fc, 0), (0x3f9, 0x01)] \<and>
   outlog (serial_putc 0x41 (serial_init (boot 0xff))) =
     [(0x3fa, 0), (0x3fb, 0x80), (0x3f8, 12), (0x3f9, 0), (0x3fb, 0x03), (0x3fc, 0), (0x3f9, 0x01),
      (0x3f8, 0x41)]"
proof -
  have a: "outlog (serial_init (boot 0xff)) =
     [(0x3fa, 0), (0x3fb, 0x80), (0x3f8, 12), (0x3f9, 0), (0x3fb, 0x03), (0x3fc, 0), (0x3f9, 0x01)]"
    by (simp add: serial_init_def Let_def boot_def outb_def com_defs)
  have b: "shd (inp (boot 0xff) (COM1 + COM_LSR)) = 0xff" by (simp add: boot_def)
  show ?thesis
    using b by (simp add: serial_init_exists serial_putc_def serial_putc_loop_outlog a) (simp add: com_defs)
qed

section \<open>The display probe\<close>

lemma cga_init_mem [simp]:
  "memlog (cga_init K s) = memlog (snd (cga_probe K s))"
  "mem (cga_init K s) = mem (snd (cga_probe K s))"
  "crt_buf (cga_init K s) = fst (cga_probe K s)"
  "addr_6845 (cga_init K s) = addr_6845 (snd (cga_probe K s))"
  by (simp_all add: cga_init_def Let_def inb_def outb_def)

text \<open>
  C9. The probe of \<^verbatim>\<open>cga_init\<close>. If the probed cell reads back \<open>0xa55a\<close>, the
  memory accesses of \<^verbatim>\<open>cga_init\<close> are: read the cell, write the sentinel, read the
  cell, write back the word first read; display memory is afterwards what it was, and the
  colour window and controller are selected. If the read-back differs, the accesses are
  the first three only (no restoring write), the monochrome window is selected, and no
  access is made to it.
\<close>

theorem cga_probe_restores:
  "(reads_back K s \<longrightarrow>
      memlog (cga_init K s) = memlog s @
        [MRead (KERNBASE K + CGA_BUFF K), MWrite (KERNBASE K + CGA_BUFF K) 0xa55a,
         MRead (KERNBASE K + CGA_BUFF K),
         MWrite (KERNBASE K + CGA_BUFF K) (mem s (KERNBASE K + CGA_BUFF K))] \<and>
      mem (cga_init K s) = mem s \<and>
      crt_buf (cga_init K s) = KERNBASE K + CGA_BUFF K \<and>
      addr_6845 (cga_init K s) = CGA_BASE K) \<and>
   (\<not> reads_back K s \<longrightarrow>
      memlog (cga_init K s) = memlog s @
        [MRead (KERNBASE K + CGA_BUFF K), MWrite (KERNBASE K + CGA_BUFF K) 0xa55a,
         MRead (KERNBASE K + CGA_BUFF K)] \<and>
      mem (cga_init K s) = mem s \<and>
      crt_buf (cga_init K s) = KERNBASE K + MONO_BUFF K \<and>
      addr_6845 (cga_init K s) = MONO_BUFF K)"
  by (auto simp: reads_back_def cga_probe_def mem_read_def mem_write_def Let_def)

theorem cga_probe_restores_witness:
  "reads_back pc_hdr vga_pc \<and>
   memlog (cga_init pc_hdr vga_pc) =
     [MRead 0xF00B8000, MWrite 0xF00B8000 0xa55a, MRead 0xF00B8000, MWrite 0xF00B8000 0x0720] \<and>
   mem (cga_init pc_hdr vga_pc) 0xF00B8000 = 0x0720 \<and>
   crt_buf (cga_init pc_hdr vga_pc) = 0xF00B8000 \<and>
   \<not> reads_back pc_hdr (boot 0) \<and>
   memlog (cga_init pc_hdr (boot 0)) = [MRead 0xF00B8000, MWrite 0xF00B8000 0xa55a, MRead 0xF00B8000] \<and>
   crt_buf (cga_init pc_hdr (boot 0)) = 0xF00B0000"
proof -
  have a: "reads_back pc_hdr vga_pc"
    by (simp add: reads_back_def vga_pc_def boot_def mem_read_def mem_write_def pc_hdr_def)
  have b: "\<not> reads_back pc_hdr (boot 0)"
    by (simp add: reads_back_def boot_def mem_read_def mem_write_def pc_hdr_def)
  have c: "memlog vga_pc = []" "mem vga_pc 0xF00B8000 = 0x0720" "memlog (boot 0) = []"
    by (simp_all add: vga_pc_def boot_def)
  have d: "KERNBASE pc_hdr + CGA_BUFF pc_hdr = 0xF00B8000" "KERNBASE pc_hdr + MONO_BUFF pc_hdr = 0xF00B0000"
    by (simp_all add: pc_hdr_def)
  show ?thesis
    using cga_probe_restores [of pc_hdr vga_pc] cga_probe_restores [of pc_hdr "boot 0"] a b
    by (simp add: c d)
qed

section \<open>The ring buffer as a queue\<close>

lemma pending_ring: "pending k = ring (buf k) (unat (rpos k)) (unat (wpos k))"
  by (simp add: pending_def ring_def Let_def)

lemma ring_empty [simp]: "ring b r r = []"
  by (simp add: ring_def)

lemma ring_length: "r < 512 \<Longrightarrow> w < 512 \<Longrightarrow> length (ring b r w) = (w + 512 - r) mod 512"
proof (cases "r \<le> w")
  case True
  assume "w < 512"
  then have lt: "w - r < 512" by arith
  have "w + 512 - r = (w - r) + 512" using True by arith
  moreover have "((w - r) + 512) mod 512 = (w - r) mod 512" by (rule mod_add_self2)
  moreover have "(w - r) mod 512 = w - r" using lt by (rule mod_less)
  ultimately have "(w + 512 - r) mod 512 = w - r" by (simp only:)
  moreover have "length (ring b r w) = w - r" using True by (simp add: ring_def)
  ultimately show ?thesis by (simp only:)
next
  case False
  assume "r < 512" "w < 512"
  then have "w + 512 - r < 512" using False by arith
  then have "(w + 512 - r) mod 512 = w + 512 - r" by (rule mod_less)
  moreover have "length (ring b r w) = w + 512 - r"
    using False \<open>r < 512\<close> by (simp add: ring_def)
  ultimately show ?thesis by (simp only:)
qed

lemma ring_put:
  assumes "length b = 512" "r < 512" "w < 512" "Suc w mod 512 \<noteq> r"
  shows "ring (b[w := x]) r (Suc w mod 512) = ring b r w @ [x]"
proof (cases "w = 511")
  case True
  then have w0: "Suc w mod 512 = 0" by simp
  then have r: "0 < r" "r \<le> 511" using assms(2,4) by auto
  have "[r..<Suc 511] = [r..<511] @ [511]"
    using r(2) by (rule upt_Suc_append)
  then have u: "[r..<512] = [r..<511] @ [511]" by simp
  have "ring (b[w := x]) r 0 = map (nth (b[511 := x])) [r..<512]"
    using r(1) True by (simp add: ring_def)
  also have "\<dots> = map (nth (b[511 := x])) [r..<511] @ [x]"
    unfolding u using assms(1) by simp
  also have "map (nth (b[511 := x])) [r..<511] = map (nth b) [r..<511]"
    by (rule map_cong) auto
  also have "map (nth b) [r..<511] = ring b r w"
    using r(2) True by (simp add: ring_def)
  finally show ?thesis by (simp add: w0)
next
  case False
  then have w: "Suc w mod 512 = Suc w" using assms(3) by simp
  have same: "map (nth (b[w := x])) xs = map (nth b) xs" if "w \<notin> set xs" for xs
  proof (rule map_cong)
    fix i assume "i \<in> set xs"
    then have "w \<noteq> i" using that by auto
    then show "b[w := x] ! i = b ! i" by simp
  qed simp
  show ?thesis
  proof (cases "r \<le> w")
    case True
    have "ring (b[w := x]) r (Suc w) = map (nth (b[w := x])) [r..<w] @ [x]"
      using True assms(1,3) by (simp add: ring_def)
    also have "map (nth (b[w := x])) [r..<w] = map (nth b) [r..<w]"
      by (rule same) simp
    finally show ?thesis using True by (simp add: ring_def w)
  next
    case False
    then have lt: "Suc w < r" using assms(4) w by simp
    have "ring (b[w := x]) r (Suc w) =
        map (nth (b[w := x])) [r..<512] @ map (nth (b[w := x])) [0..<w] @ [x]"
      using lt assms(1,3) by (simp add: ring_def)
    also have "map (nth (b[w := x])) [r..<512] = map (nth b) [r..<512]"
      by (rule same) (use lt in simp)
    also have "map (nth (b[w := x])) [0..<w] = map (nth b) [0..<w]"
      by (rule same) simp
    finally show ?thesis using False by (simp add: ring_def w)
  qed
qed

lemma ring_take:
  assumes "r < 512" "w < 512" "r \<noteq> w"
  shows "ring b r w = b ! r # ring b (Suc r mod 512) w"
proof (cases "r = 511")
  case True
  then have r0: "Suc r mod 512 = 0" by simp
  have "[511..<Suc 511] = [511]" by (simp del: upt_Suc)
  then have "[511..<512] = [511 :: nat]" by simp
  then show ?thesis using True assms by (simp add: ring_def r0)
next
  case False
  then have r: "Suc r mod 512 = Suc r" using assms(1) by simp
  show ?thesis
  proof (cases "r \<le> w")
    case True
    then have "r < w" using assms(3) by simp
    then have "[r..<w] = r # [Suc r..<w]" by (rule upt_conv_Cons)
    then show ?thesis using \<open>r < w\<close> by (simp add: ring_def r)
  next
    case False
    have "[r..<512] = r # [Suc r..<512]" using assms(1) by (rule upt_conv_Cons)
    then show ?thesis using False by (simp add: ring_def r)
  qed
qed

lemma suc_mod_512: "n < 512 \<Longrightarrow> Suc n mod 512 < 512"
  by simp

lemma next_pos:
  assumes "unat (x :: 32 word) < 512"
  shows "unat (if x + 1 = CONSBUFSIZE then 0 else x + 1) = Suc (unat x) mod 512"
proof -
  have "unat x + unat (1 :: 32 word) < 2 ^ LENGTH(32)"
    using assms by simp
  then have "unat (x + 1) = unat x + unat (1 :: 32 word)"
    by (simp only: unat_add_lem)
  then have a: "unat (x + 1) = Suc (unat x)" by simp
  have b: "(x + 1 = CONSBUFSIZE) = (unat (x + 1) = 512)"
    by (simp add: word_unat_eq_iff CONSBUFSIZE_def)
  show ?thesis
  proof (cases "unat x = 511")
    case True
    then show ?thesis using a b by simp
  next
    case False
    then have "Suc (unat x) mod 512 = Suc (unat x)" using assms by simp
    then show ?thesis using a b False by simp
  qed
qed

lemma cons_store_pos:
  assumes "cons_ok (cons s)"
  shows "unat (wpos (cons (cons_store c s))) = Suc (unat (wpos (cons s))) mod 512"
    and "cons_ok (cons (cons_store c s))"
proof -
  have w: "unat (wpos (cons s)) < 512" using assms by (simp add: cons_ok_def)
  show a: "unat (wpos (cons (cons_store c s))) = Suc (unat (wpos (cons s))) mod 512"
    using next_pos [OF w] by (simp add: cons_store_simps)
  have "Suc (unat (wpos (cons s))) mod 512 < 512" by simp
  then show "cons_ok (cons (cons_store c s))"
    using assms a by (simp add: cons_ok_def cons_store_simps)
qed

lemma pending_length:
  assumes "cons_ok k"
  shows "length (pending k) = (unat (wpos k) + 512 - unat (rpos k)) mod 512"
  using assms by (simp add: pending_ring ring_length cons_ok_def)

lemma pending_short: "cons_ok k \<Longrightarrow> length (pending k) \<le> 511"
proof -
  assume "cons_ok k"
  then have "length (pending k) = (unat (wpos k) + 512 - unat (rpos k)) mod 512"
    by (rule pending_length)
  moreover have "(unat (wpos k) + 512 - unat (rpos k)) mod 512 < 512"
    by (rule mod_less_divisor) simp
  ultimately show ?thesis by arith
qed

lemma full_iff:
  assumes "r < 512" "w < 512"
  shows "Suc w mod 512 = r \<longleftrightarrow> (w + 512 - r) mod 512 = 511"
proof (cases "r \<le> w")
  case True
  then have lt: "w - r < 512" using assms(2) by arith
  have "w + 512 - r = (w - r) + 512" using True by arith
  moreover have "((w - r) + 512) mod 512 = (w - r) mod 512" by (rule mod_add_self2)
  moreover have "(w - r) mod 512 = w - r" using lt by (rule mod_less)
  ultimately have m: "(w + 512 - r) mod 512 = w - r" by (simp only:)
  show ?thesis
  proof (cases "w = 511")
    case True
    then have "Suc w mod 512 = 0" by simp
    then show ?thesis unfolding m using True by arith
  next
    case False
    then have "Suc w < 512" using assms(2) by arith
    then have "Suc w mod 512 = Suc w" by (rule mod_less)
    then show ?thesis unfolding m using True assms(2) by arith
  qed
next
  case False
  then have "w + 512 - r < 512" using assms by arith
  then have m: "(w + 512 - r) mod 512 = w + 512 - r" by (rule mod_less)
  have "Suc w < 512" using False assms(1) by arith
  then have "Suc w mod 512 = Suc w" by (rule mod_less)
  then show ?thesis unfolding m using False assms by arith
qed

lemma pending_store:
  assumes "cons_ok (cons s)"
  shows "pending (cons (cons_store c s)) =
     (if length (pending (cons s)) = 511 then [] else pending (cons s) @ [ucast c])"
proof -
  let ?k = "cons s"
  let ?r = "unat (rpos ?k)" and ?w = "unat (wpos ?k)"
  have ok: "length (buf ?k) = 512" "?r < 512" "?w < 512"
    using assms by (simp_all add: cons_ok_def)
  have full: "Suc ?w mod 512 = ?r \<longleftrightarrow> length (pending ?k) = 511"
    using full_iff [OF ok(2,3)] pending_length [OF assms] by simp
  have p: "pending (cons (cons_store c s)) = ring ((buf ?k)[?w := ucast c]) ?r (Suc ?w mod 512)"
    unfolding pending_ring cons_store_pos(1) [OF assms] by (simp add: cons_store_simps)
  show ?thesis
  proof (cases "Suc ?w mod 512 = ?r")
    case True
    then have "ring ((buf ?k)[?w := ucast c]) ?r (Suc ?w mod 512) = []" by simp
    then show ?thesis using True full p by simp
  next
    case False
    then have "ring ((buf ?k)[?w := ucast c]) ?r (Suc ?w mod 512) = ring (buf ?k) ?r ?w @ [ucast c]"
      using ok by (intro ring_put) simp_all
    then show ?thesis using False full p by (simp add: pending_ring)
  qed
qed

lemma pending_Nil_iff: "cons_ok k \<Longrightarrow> pending k = [] \<longleftrightarrow> rpos k = wpos k"
proof -
  assume ok: "cons_ok k"
  show ?thesis
  proof (cases "rpos k = wpos k")
    case True
    then show ?thesis by (simp add: pending_ring)
  next
    case False
    then have "unat (rpos k) \<noteq> unat (wpos k)" by (simp add: word_unat_eq_iff)
    then have "ring (buf k) (unat (rpos k)) (unat (wpos k)) =
        buf k ! unat (rpos k) # ring (buf k) (Suc (unat (rpos k)) mod 512) (unat (wpos k))"
      using ok by (intro ring_take) (simp_all add: cons_ok_def)
    then show ?thesis using False by (simp add: pending_ring)
  qed
qed

lemma cons_take_empty:
  assumes "rpos (cons s) = wpos (cons s)"
  shows "cons_take s = (- 1, s)"
  using assms by (simp add: cons_take_def Let_def)

lemma cons_take_some:
  assumes "cons_ok (cons s)" "pending (cons s) = b # bs"
  shows "fst (cons_take s) = ucast b"
    and "pending (cons (snd (cons_take s))) = bs"
    and "cons_ok (cons (snd (cons_take s)))"
    and "snd (cons_take s) = s\<lparr>cons := cons (snd (cons_take s))\<rparr>"
proof -
  let ?k = "cons s"
  let ?r = "unat (rpos ?k)" and ?w = "unat (wpos ?k)"
  have ok: "length (buf ?k) = 512" "?r < 512" "?w < 512"
    using assms(1) by (simp_all add: cons_ok_def)
  have ne: "rpos ?k \<noteq> wpos ?k"
    using pending_Nil_iff [OF assms(1)] assms(2) by simp
  then have "?r \<noteq> ?w" by (simp add: word_unat_eq_iff)
  then have "ring (buf ?k) ?r ?w = buf ?k ! ?r # ring (buf ?k) (Suc ?r mod 512) ?w"
    using ok by (intro ring_take) simp_all
  then have hd: "b = buf ?k ! ?r" and tl: "bs = ring (buf ?k) (Suc ?r mod 512) ?w"
    using assms(2) by (simp_all add: pending_ring)
  have k': "cons (snd (cons_take s)) =
      ?k\<lparr>rpos := (if rpos ?k + 1 = CONSBUFSIZE then 0 else rpos ?k + 1)\<rparr>"
    using ne by (simp add: cons_take_def Let_def)
  show "fst (cons_take s) = ucast b"
    using ne hd by (simp add: cons_take_def Let_def)
  show "pending (cons (snd (cons_take s))) = bs"
    unfolding k' using next_pos [OF ok(2)] tl by (simp add: pending_ring)
  show "cons_ok (cons (snd (cons_take s)))"
    unfolding k' using next_pos [OF ok(2)] ok by (simp add: cons_ok_def)
  show "snd (cons_take s) = s\<lparr>cons := cons (snd (cons_take s))\<rparr>"
    by (simp add: cons_take_def Let_def)
qed

section \<open>No zero byte in the ring\<close>

lemma ucast_ucast8: "(ucast (ucast (b :: 8 word) :: 32 word) :: 8 word) = b"
  by (simp add: ucast_up_ucast_id is_up)

lemma ucast8_zero: "(ucast (b :: 8 word) :: 32 word) = 0 \<longleftrightarrow> b = 0"
  using ucast8_eq_iff [of b 0] by simp

lemma serial_byte_source: "byte_source serial_proc_data"
  by (auto simp: byte_source_def serial_proc_data_def Let_def)

lemma kbd_byte_source: "byte_source (kbd_proc_data K)"
proof -
  have "cons (snd (kbd_proc_data K s)) = cons s" for s
    by (simp add: kbd_proc_data_def Let_def)
  moreover have "fst (kbd_proc_data K s) = - 1 \<or> (\<exists>b :: 8 word. fst (kbd_proc_data K s) = ucast b)" for s
  proof (cases "ucast (kbd_status K s) AND KBS_DIB K = 0")
    case True
    then show ?thesis by (simp add: kbd_nodata)
  next
    case avail: False
    show ?thesis
    proof (cases "kbd_data K s AND 0x80 = 0")
      case True
      then show ?thesis using kbd_press(1) [OF avail True] press_char_byte by simp
    next
      case False
      have "fst (kbd_proc_data K s) = ucast (0 :: 8 word)"
        using kbd_release(1) [OF avail False] by simp
      then show ?thesis by blast
    qed
  qed
  ultimately show ?thesis unfolding byte_source_def by blast
qed

lemma nonzero_store:
  assumes "nonzero_ring (cons s)" "(ucast c :: 8 word) \<noteq> 0"
  shows "nonzero_ring (cons (cons_store c s))"
  using assms
  by (simp add: nonzero_ring_def cons_store_pos(2) pending_store)

lemma cons_intr_nonzero:
  assumes "cons_intr proc s = Some t" "byte_source proc" "nonzero_ring (cons s)"
  shows "nonzero_ring (cons t)"
proof -
  have "byte_source proc \<longrightarrow> nonzero_ring (cons s) \<longrightarrow> nonzero_ring (cons t)"
  proof (rule cons_intr.raw_induct
      [where P = "\<lambda>proc s t. byte_source proc \<longrightarrow> nonzero_ring (cons s) \<longrightarrow> nonzero_ring (cons t)",
        OF _ assms(1)])
    fix drain :: "(sys \<Rightarrow> 32 word \<times> sys) \<Rightarrow> sys \<Rightarrow> sys option" and proc s t
    assume IH: "\<And>proc s t. drain proc s = Some t \<Longrightarrow>
        byte_source proc \<longrightarrow> nonzero_ring (cons s) \<longrightarrow> nonzero_ring (cons t)"
      and hyps: "(let r = proc s; c = fst r; s1 = snd r
          in if c = - 1 then Some s1
             else if c = 0 then drain proc s1 else drain proc (cons_store c s1)) = Some t"
    show "byte_source proc \<longrightarrow> nonzero_ring (cons s) \<longrightarrow> nonzero_ring (cons t)"
    proof (intro impI)
      assume src: "byte_source proc" and nz: "nonzero_ring (cons s)"
      let ?c = "fst (proc s)" and ?s1 = "snd (proc s)"
      have same: "cons ?s1 = cons s" using src by (simp add: byte_source_def)
      show "nonzero_ring (cons t)"
      proof (cases "?c = - 1")
        case True
        then have "t = ?s1" using hyps by (simp add: Let_def)
        then show ?thesis using same nz by simp
      next
        case nm: False
        show ?thesis
        proof (cases "?c = 0")
          case True
          then have "drain proc ?s1 = Some t" using hyps nm by (simp add: Let_def)
          then show ?thesis using IH src nz same by simp
        next
          case False
          then have d: "drain proc (cons_store ?c ?s1) = Some t"
            using hyps nm by (simp add: Let_def)
          obtain b :: "8 word" where b: "?c = ucast b"
            using src nm by (auto simp: byte_source_def)
          then have "b \<noteq> 0" using False by (simp add: ucast8_zero)
          then have "(ucast ?c :: 8 word) \<noteq> 0" by (simp add: b ucast_ucast8)
          then have "nonzero_ring (cons (cons_store ?c ?s1))"
            using nz same by (intro nonzero_store) simp_all
          then show ?thesis using IH [OF d] src by simp
        qed
      qed
    qed
  qed
  then show ?thesis using assms(2,3) by simp
qed

lemma cons_take_nonzero:
  assumes "nonzero_ring (cons s)"
  shows "nonzero_ring (cons (snd (cons_take s)))"
proof (cases "pending (cons s)")
  case Nil
  then have "rpos (cons s) = wpos (cons s)"
    using assms pending_Nil_iff by (simp add: nonzero_ring_def)
  then show ?thesis using assms by (simp add: cons_take_empty)
next
  case (Cons b bs)
  have ok: "cons_ok (cons s)" using assms by (simp add: nonzero_ring_def)
  show ?thesis
    using cons_take_some(2,3) [OF ok Cons] assms Cons by (simp add: nonzero_ring_def)
qed

lemma cons_getc_nonzero:
  assumes "cons_getc K s = Some r" "nonzero_ring (cons s)"
  shows "nonzero_ring (cons (snd r))"
proof -
  obtain s1 s2 where a: "serial_intr s = Some s1" and b: "kbd_intr K s1 = Some s2"
    and r: "r = cons_take s2"
    using assms(1) by (auto simp: cons_getc_def split: option.splits)
  have "nonzero_ring (cons s1)"
  proof (cases "serial_exists s")
    case True
    then show ?thesis
      using a assms(2) cons_intr_nonzero [OF _ serial_byte_source] by (simp add: serial_intr_def)
  next
    case False
    then show ?thesis using a assms(2) by (simp add: serial_intr_def)
  qed
  then have "nonzero_ring (cons s2)"
    using b cons_intr_nonzero [OF _ kbd_byte_source] by (simp add: kbd_intr_def console_intr_def)
  then show ?thesis unfolding r by (rule cons_take_nonzero)
qed

text \<open>
  C8. The zero byte is never stored. When a source returns 0, \<^verbatim>\<open>cons_intr\<close> goes on to
  the next poll from the state the source left; the two sources never touch the buffer or
  its cursors, and a key release makes \<^verbatim>\<open>kbd_proc_data\<close> return 0. Consequently, if
  every byte between \<^verbatim>\<open>rpos\<close> and \<^verbatim>\<open>wpos\<close> is nonzero, it is so again after
  \<^verbatim>\<open>serial_intr\<close>, after \<^verbatim>\<open>kbd_intr\<close> and after \<^verbatim>\<open>cons_getc\<close>, whenever they
  return. The buffer at boot is empty, so the property holds in every state reached.
\<close>

theorem zero_never_stored:
  assumes "cons_ok (cons s)" and "0 \<notin> set (pending (cons s))"
  shows "(fst (proc s) = 0 \<longrightarrow> cons_intr proc s = cons_intr proc (snd (proc s))) \<and>
    cons (snd (serial_proc_data s)) = cons s \<and>
    cons (snd (kbd_proc_data K s)) = cons s \<and>
    (ucast (kbd_status K s) AND KBS_DIB K \<noteq> 0 \<and> kbd_data K s AND 0x80 \<noteq> 0 \<longrightarrow>
       fst (kbd_proc_data K s) = 0) \<and>
    (\<forall>t. serial_intr s = Some t \<longrightarrow> cons_ok (cons t) \<and> 0 \<notin> set (pending (cons t))) \<and>
    (\<forall>t. kbd_intr K s = Some t \<longrightarrow> cons_ok (cons t) \<and> 0 \<notin> set (pending (cons t))) \<and>
    (\<forall>r. cons_getc K s = Some r \<longrightarrow>
       cons_ok (cons (snd r)) \<and> 0 \<notin> set (pending (cons (snd r))))"
proof -
  have nz: "nonzero_ring (cons s)" using assms by (simp add: nonzero_ring_def)
  have a: "fst (proc s) = 0 \<longrightarrow> cons_intr proc s = cons_intr proc (snd (proc s))"
    by (simp add: cons_intr_skip)
  have b: "cons (snd (serial_proc_data s)) = cons s" "cons (snd (kbd_proc_data K s)) = cons s"
    using serial_byte_source kbd_byte_source [of K] by (simp_all add: byte_source_def)
  have c: "ucast (kbd_status K s) AND KBS_DIB K \<noteq> 0 \<and> kbd_data K s AND 0x80 \<noteq> 0 \<longrightarrow>
       fst (kbd_proc_data K s) = 0"
    by (simp add: kbd_release)
  have d: "nonzero_ring (cons t)" if "serial_intr s = Some t" for t
  proof (cases "serial_exists s")
    case True
    then show ?thesis
      using that nz cons_intr_nonzero [OF _ serial_byte_source] by (simp add: serial_intr_def)
  next
    case False
    then show ?thesis using that nz by (simp add: serial_intr_def)
  qed
  have e: "nonzero_ring (cons t)" if "kbd_intr K s = Some t" for t
    using that nz cons_intr_nonzero [OF _ kbd_byte_source] by (simp add: kbd_intr_def console_intr_def)
  have f: "nonzero_ring (cons (snd r))" if "cons_getc K s = Some r" for r
    using that nz by (rule cons_getc_nonzero)
  show ?thesis
    using a b c d e f unfolding nonzero_ring_def by blast
qed

theorem zero_never_stored_witness:
  "cons_ok (cons (kbd_sys 0 [0x1e, 0x9e])) \<and>
   pending (cons (kbd_sys 0 [0x1e, 0x9e])) = [] \<and>
   map_option (pending \<circ> cons) (kbd_intr pc_hdr (kbd_sys 0 [0x1e, 0x9e])) = Some [0x61] \<and>
   cons (snd (kbd_proc_data pc_hdr (kbd_sys 0 [0x1e, 0x9e]))) = cons (kbd_sys 0 [0x1e, 0x9e])"
proof -
  let ?s = "kbd_sys 0 [0x1e, 0x9e]"
  have h1: "cons_ok (cons ?s)" by (simp add: cons_ok_def kbd_sys_def boot_def)
  have p: "pending (cons ?s) = []" by (simp add: pending_def kbd_sys_def boot_def)
  then have h2: "0 \<notin> set (pending (cons ?s))" by simp
  have r: "map_option (pending \<circ> cons) (kbd_intr pc_hdr ?s) = Some [0x61]"
    by (simp add: kbd_intr_def console_intr_def cons_intr.simps kbd_eval cons_store_def pending_def
        CONSBUFSIZE_def)
  show ?thesis
    using zero_never_stored [OF h1 h2, of "kbd_proc_data pc_hdr" pc_hdr] h1 p r by simp
qed

section \<open>Ctrl-Alt-Del\<close>





section \<open>Pushing through the serial line, popping with idle devices\<close>

lemma com_ports: "COM1 + COM_LSR \<noteq> COM1 + COM_RX"
  by (simp add: com_defs)

lemma serial_idle_tl:
  "serial_delivers [] l r \<Longrightarrow> serial_delivers [] (stl l) r'"
  by (auto dest: stl_sset)

lemma serial_drain:
  assumes "serial_delivers bs (inp s (COM1 + COM_LSR)) (inp s (COM1 + COM_RX))"
    and "0 \<notin> set bs" and "cons_ok (cons s)"
  shows "\<exists>t. cons_intr serial_proc_data s = Some t \<and>
      cons_ok (cons t) \<and>
      pending (cons t) = fold q_put bs (pending (cons s)) \<and>
      serial_delivers [] (inp t (COM1 + COM_LSR)) (inp t (COM1 + COM_RX)) \<and>
      (\<forall>p. p \<noteq> COM1 + COM_LSR \<and> p \<noteq> COM1 + COM_RX \<longrightarrow> inp t p = inp s p) \<and>
      serial_exists t = serial_exists s"
  using assms
proof (induction bs arbitrary: s)
  case Nil
  then have "ucast (shd (inp s (COM1 + COM_LSR))) AND COM_LSR_DATA = (0 :: 32 word)"
    by (simp add: shd_sset)
  then have "serial_proc_data s = (- 1, snd (inb (COM1 + COM_LSR) s))"
    by (simp add: serial_proc_data_def Let_def)
  then have "cons_intr serial_proc_data s = Some (snd (inb (COM1 + COM_LSR) s))"
    using cons_intr_stop [of serial_proc_data s] by simp
  moreover have "serial_delivers [] (stl (inp s (COM1 + COM_LSR))) (inp s (COM1 + COM_RX))"
    using Nil.prems(1) by (rule serial_idle_tl)
  ultimately show ?case using Nil.prems(3) com_ports by simp
next
  case (Cons b bs)
  let ?s1 = "snd (inb (COM1 + COM_RX) (snd (inb (COM1 + COM_LSR) s)))"
  let ?s2 = "cons_store (ucast b) ?s1"
  have st: "ucast (shd (inp s (COM1 + COM_LSR))) AND COM_LSR_DATA \<noteq> (0 :: 32 word)"
    and rx: "shd (inp s (COM1 + COM_RX)) = b"
    and rest: "serial_delivers bs (stl (inp s (COM1 + COM_LSR))) (stl (inp s (COM1 + COM_RX)))"
    using Cons.prems(1) by simp_all
  have b0: "b \<noteq> 0" using Cons.prems(2) by auto
  have pd: "serial_proc_data s = (ucast b, ?s1)"
    using st rx com_ports by (simp add: serial_proc_data_def Let_def)
  have "cons_intr serial_proc_data s = cons_intr serial_proc_data ?s2"
    using cons_intr_store [of serial_proc_data s] pd b0 by (simp add: ucast8_zero ucast8_not_m1)
  moreover have i2: "inp ?s2 = (inp s)(COM1 + COM_LSR := stl (inp s (COM1 + COM_LSR)),
      COM1 + COM_RX := stl (inp s (COM1 + COM_RX)))"
    using com_ports by (simp add: cons_store_simps)
  have ok1: "cons_ok (cons ?s1)" using Cons.prems(3) by simp
  have ok2: "cons_ok (cons ?s2)" using ok1 by (rule cons_store_pos(2))
  have p2: "pending (cons ?s2) = q_put b (pending (cons s))"
    using pending_store [OF ok1, of "ucast b"] by (simp add: q_put_def ucast_ucast8)
  have d2: "serial_delivers bs (inp ?s2 (COM1 + COM_LSR)) (inp ?s2 (COM1 + COM_RX))"
    unfolding i2 using rest com_ports by simp
  have "0 \<notin> set bs" using Cons.prems(2) by simp
  from Cons.IH [OF d2 this ok2] obtain t where
    t: "cons_intr serial_proc_data ?s2 = Some t" "cons_ok (cons t)"
      "pending (cons t) = fold q_put bs (pending (cons ?s2))"
      "serial_delivers [] (inp t (COM1 + COM_LSR)) (inp t (COM1 + COM_RX))"
      "\<forall>p. p \<noteq> COM1 + COM_LSR \<and> p \<noteq> COM1 + COM_RX \<longrightarrow> inp t p = inp ?s2 p"
      "serial_exists t = serial_exists ?s2"
    by blast
  have "\<forall>p. p \<noteq> COM1 + COM_LSR \<and> p \<noteq> COM1 + COM_RX \<longrightarrow> inp t p = inp s p"
    using t(5) unfolding i2 by simp
  moreover have "serial_exists t = serial_exists s" using t(6) by (simp add: cons_store_simps)
  ultimately show ?case using t(1,2,3,4) p2 by simp
qed

lemma kbd_idle_poll:
  assumes "kbd_idle K t"
  shows "kbd_intr K t = Some (snd (inb (KBSTATP K) t))"
proof -
  have "ucast (shd (inp t (KBSTATP K))) AND KBS_DIB K = 0"
    using assms by (simp add: kbd_idle_def shd_sset)
  then have "kbd_proc_data K t = (- 1, snd (inb (KBSTATP K) t))"
    by (simp add: kbd_nodata kbd_status_def)
  then show ?thesis
    using cons_intr_stop [of "kbd_proc_data K" t] by (simp add: kbd_intr_def console_intr_def)
qed

lemma kbd_idle_inb:
  assumes "kbd_idle K t"
  shows "kbd_idle K (snd (inb p t))"
  using assms by (auto simp: kbd_idle_def dest: stl_sset)

lemma quiet_cons [simp]: "quiet K (s\<lparr>cons := k\<rparr>) = quiet K s"
  by (simp add: quiet_def kbd_idle_def)

lemma cons_getc_quiet:
  assumes "quiet K t"
  shows "\<exists>u. cons_getc K t = Some (cons_take u) \<and> cons u = cons t \<and> quiet K u"
proof -
  have idle: "kbd_idle K t" using assms by (simp add: quiet_def)
  then have ports: "KBSTATP K \<noteq> COM1 + COM_LSR" "KBSTATP K \<noteq> COM1 + COM_RX"
    by (simp_all add: kbd_idle_def)
  obtain t1 where t1: "serial_intr t = Some t1" "cons t1 = cons t" "quiet K t1"
  proof (cases "serial_exists t")
    case False
    then have "serial_intr t = Some t" by (simp add: serial_intr_def)
    then show ?thesis using that assms by simp
  next
    case True
    let ?t1 = "snd (inb (COM1 + COM_LSR) t)"
    have d: "serial_delivers [] (inp t (COM1 + COM_LSR)) (inp t (COM1 + COM_RX))"
      using assms True by (simp add: quiet_def)
    then have "ucast (shd (inp t (COM1 + COM_LSR))) AND COM_LSR_DATA = (0 :: 32 word)"
      by (simp add: shd_sset)
    then have "serial_proc_data t = (- 1, ?t1)"
      by (simp add: serial_proc_data_def Let_def)
    then have a: "serial_intr t = Some ?t1"
      using cons_intr_stop [of serial_proc_data t] True by (simp add: serial_intr_def)
    have "serial_delivers [] (stl (inp t (COM1 + COM_LSR))) (inp t (COM1 + COM_RX))"
      using d by (rule serial_idle_tl)
    then have "quiet K ?t1"
      using kbd_idle_inb [OF idle, of "COM1 + COM_LSR"] com_ports by (simp add: quiet_def)
    then show ?thesis using that a by simp
  qed
  let ?u = "snd (inb (KBSTATP K) t1)"
  have i1: "kbd_idle K t1" using t1(3) by (simp add: quiet_def)
  have k: "kbd_intr K t1 = Some ?u" using i1 by (rule kbd_idle_poll)
  have "quiet K ?u"
    using t1(3) kbd_idle_inb [OF i1, of "KBSTATP K"] ports by (simp add: quiet_def)
  moreover have "cons_getc K t = Some (cons_take ?u)"
    using t1(1) k by (simp add: cons_getc_def)
  ultimately show ?thesis using t1(2) by (intro exI [of _ ?u]) simp
qed

lemma pops_quiet:
  assumes "quiet K t" "cons_ok (cons t)"
  shows "map_option fst (pops K n t) =
     Some (map ucast (take n (pending (cons t))) @ replicate (n - length (pending (cons t))) (- 1))"
  using assms
proof (induction n arbitrary: t)
  case 0
  then show ?case by simp
next
  case (Suc n)
  obtain u where u: "cons_getc K t = Some (cons_take u)" "cons u = cons t" "quiet K u"
    using cons_getc_quiet [OF Suc.prems(1)] by blast
  have ok: "cons_ok (cons u)" using Suc.prems(2) u(2) by simp
  show ?case
  proof (cases "pending (cons u)")
    case Nil
    then have "rpos (cons u) = wpos (cons u)" using pending_Nil_iff [OF ok] by simp
    then have ct: "cons_take u = (- 1, u)" by (rule cons_take_empty)
    have "map_option fst (pops K n u) = Some (replicate n (- 1))"
      using Suc.IH [OF u(3) ok] Nil by simp
    then show ?thesis
      using u(1,2) ct Nil by (auto simp: split: option.splits)
  next
    case (Cons b q)
    let ?v = "snd (cons_take u)"
    have v: "fst (cons_take u) = ucast b" "pending (cons ?v) = q" "cons_ok (cons ?v)"
      "?v = u\<lparr>cons := cons ?v\<rparr>"
      using cons_take_some [OF ok Cons] by blast+
    have "quiet K (u\<lparr>cons := cons ?v\<rparr>)" using u(3) by simp
    then have qv: "quiet K ?v" using v(4) by simp
    have "map_option fst (pops K n ?v) =
        Some (map ucast (take n q) @ replicate (n - length q) (- 1))"
      using Suc.IH [OF qv v(3)] v(2) by simp
    then show ?thesis
      using u(1,2) v(1) Cons by (auto simp: split: option.splits)
  qed
qed

lemma fold_q_put_fits:
  "length q + length bs \<le> 511 \<Longrightarrow> fold q_put bs q = q @ bs"
  by (induction bs arbitrary: q) (simp_all add: q_put_def)

lemma fold_q_put_512:
  assumes "length bs = 512"
  shows "fold q_put bs [] = []"
proof -
  have ne: "bs \<noteq> []" using assms by auto
  then have bs: "bs = butlast bs @ [last bs]" by simp
  have l: "length (butlast bs) = 511" using assms by simp
  then have "fold q_put (butlast bs) [] = butlast bs" using fold_q_put_fits [of "[]" "butlast bs"] by simp
  then have "fold q_put (butlast bs @ [last bs]) [] = []" using l by (simp add: q_put_def)
  then show ?thesis using bs by simp
qed

lemma fold_q_put_513:
  assumes "length bs = 513"
  shows "fold q_put bs [] = [last bs]"
proof -
  have ne: "bs \<noteq> []" using assms by auto
  then have bs: "bs = butlast bs @ [last bs]" by simp
  have "length (butlast bs) = 512" using assms by simp
  then have "fold q_put (butlast bs) [] = []" by (rule fold_q_put_512)
  then have "fold q_put (butlast bs @ [last bs]) [] = [last bs]" by (simp add: q_put_def)
  then show ?thesis using bs by simp
qed

lemma drain_then_pops:
  assumes "cons_ok (cons s)" and "rpos (cons s) = wpos (cons s)" and "serial_exists s"
    and "serial_delivers bs (inp s (COM1 + COM_LSR)) (inp s (COM1 + COM_RX))"
    and "0 \<notin> set bs" and "kbd_idle K s"
  shows "map_option fst (Option.bind (serial_intr s) (pops K n)) =
     Some (map ucast (take n (fold q_put bs [])) @ replicate (n - length (fold q_put bs [])) (- 1))"
proof -
  have e: "pending (cons s) = []" using pending_Nil_iff [OF assms(1)] assms(2) by simp
  obtain t where t: "cons_intr serial_proc_data s = Some t" "cons_ok (cons t)"
      "pending (cons t) = fold q_put bs (pending (cons s))"
      "serial_delivers [] (inp t (COM1 + COM_LSR)) (inp t (COM1 + COM_RX))"
      "\<forall>p. p \<noteq> COM1 + COM_LSR \<and> p \<noteq> COM1 + COM_RX \<longrightarrow> inp t p = inp s p"
      "serial_exists t = serial_exists s"
    using serial_drain [OF assms(4,5,1)] by blast
  have "inp t (KBSTATP K) = inp s (KBSTATP K)" using t(5) assms(6) by (simp add: kbd_idle_def)
  then have "kbd_idle K t" using assms(6) by (simp add: kbd_idle_def)
  then have q: "quiet K t" using t(4) by (simp add: quiet_def)
  have "serial_intr s = Some t" using t(1) assms(3) by (simp add: serial_intr_def)
  then show ?thesis using pops_quiet [OF q t(2), of n] t(3) e by simp
qed

lemma serial_delivers_idle:
  "serial_delivers [] idle r0 \<Longrightarrow> serial_delivers bs (replicate (length bs) 1 @- idle) (bs @- r)"
  by (induction bs) (simp_all add: com_defs)

lemma serial_delivers_script:
  "serial_delivers bs (replicate (length bs) 1 @- sconst 0) (bs @- r)"
  by (rule serial_delivers_idle [of "sconst 0" r]) simp

lemma serial_sys_hyps:
  "cons_ok (cons (serial_sys bs))"
  "rpos (cons (serial_sys bs)) = wpos (cons (serial_sys bs))"
  "serial_exists (serial_sys bs)"
  "serial_delivers bs (inp (serial_sys bs) (COM1 + COM_LSR)) (inp (serial_sys bs) (COM1 + COM_RX))"
  "kbd_idle pc_hdr (serial_sys bs)"
proof -
  show "cons_ok (cons (serial_sys bs))" by (simp add: serial_sys_def boot_def cons_ok_def)
  show "rpos (cons (serial_sys bs)) = wpos (cons (serial_sys bs))" by (simp add: serial_sys_def boot_def)
  show "serial_exists (serial_sys bs)" by (simp add: serial_sys_def)
  have "inp (serial_sys bs) (COM1 + COM_LSR) = replicate (length bs) 1 @- sconst 0"
    "inp (serial_sys bs) (COM1 + COM_RX) = bs @- sconst 0"
    by (simp_all add: serial_sys_def com_defs)
  then show "serial_delivers bs (inp (serial_sys bs) (COM1 + COM_LSR)) (inp (serial_sys bs) (COM1 + COM_RX))"
    by (simp add: serial_delivers_script)
  show "kbd_idle pc_hdr (serial_sys bs)"
    by (simp add: kbd_idle_def serial_sys_def pc_hdr_def com_defs)
qed

lemma ovf_bytes_facts:
  "length ovf_bytes = 513" "0 \<notin> set ovf_bytes" "last ovf_bytes = 3"
proof -
  show "length ovf_bytes = 513" by (simp add: ovf_bytes_def)
  have "(of_nat (n mod 255 + 1) :: 8 word) \<noteq> 0" for n :: nat
  proof -
    have "n mod 255 + 1 < 256" by simp
    moreover have "0 < n mod 255 + 1" by simp
    ultimately have "\<not> 256 dvd (n mod 255 + 1)" by (meson nat_dvd_not_less)
    then show ?thesis unfolding word_of_nat_eq_0_iff by simp
  qed
  then show "0 \<notin> set ovf_bytes" by (auto simp: ovf_bytes_def)
  have "[0..<Suc 512] = [0..<512] @ [512]" by (rule upt_Suc_append) simp
  then have "[0..<513] = [0..<512] @ [512::nat]" by simp
  then have "ovf_bytes = map (\<lambda>n. of_nat (n mod 255 + 1)) [0..<512] @ [of_nat (512 mod 255 + 1)]"
    by (simp only: ovf_bytes_def map_append list.map)
  then have "last ovf_bytes =
      last (map (\<lambda>n. of_nat (n mod 255 + 1)) [0..<512] @ [of_nat (512 mod 255 + 1) :: 8 word])"
    by (rule arg_cong)
  then have "last ovf_bytes = of_nat (512 mod 255 + 1)" by (simp only: last_snoc)
  then show "last ovf_bytes = 3" by simp
qed

text \<open>
  C5, as amended. For every sequence of at most 511 nonzero bytes that the serial line
  delivers into an empty ring buffer (drained by \<^verbatim>\<open>serial_intr\<close>, that is by
  \<^verbatim>\<open>cons_intr\<close>), as many calls of \<^verbatim>\<open>cons_getc\<close> return exactly those bytes in the
  order they were pushed, while no further input arrives.
\<close>

theorem fifo_up_to_511:
  assumes "cons_ok (cons s)" and "rpos (cons s) = wpos (cons s)" and "serial_exists s"
    and "serial_delivers bs (inp s (COM1 + COM_LSR)) (inp s (COM1 + COM_RX))"
    and "0 \<notin> set bs" and "kbd_idle K s" and "length bs \<le> 511"
  shows "map_option fst (Option.bind (serial_intr s) (pops K (length bs))) = Some (map ucast bs)"
  using drain_then_pops [OF assms(1-6), of "length bs"] assms(7)
  by (simp add: fold_q_put_fits)

theorem fifo_up_to_511_witness:
  "cons_ok (cons (serial_sys [0x68, 0x69])) \<and>
   rpos (cons (serial_sys [0x68, 0x69])) = wpos (cons (serial_sys [0x68, 0x69])) \<and>
   kbd_idle pc_hdr (serial_sys [0x68, 0x69]) \<and>
   serial_delivers [0x68, 0x69] (inp (serial_sys [0x68, 0x69]) (COM1 + COM_LSR))
     (inp (serial_sys [0x68, 0x69]) (COM1 + COM_RX)) \<and>
   map_option fst (Option.bind (serial_intr (serial_sys [0x68, 0x69])) (pops pc_hdr 2)) =
     Some [0x68, 0x69]"
proof -
  have z: "0 \<notin> set [0x68, 0x69 :: 8 word]" by simp
  have l: "length [0x68, 0x69 :: 8 word] \<le> 511" by simp
  have e: "length [0x68, 0x69 :: 8 word] = 2" by simp
  have m: "map ucast [0x68, 0x69 :: 8 word] = [0x68, 0x69 :: 32 word]" by simp
  have "map_option fst (Option.bind (serial_intr (serial_sys [0x68, 0x69]))
      (pops pc_hdr (length [0x68, 0x69 :: 8 word]))) = Some (map ucast [0x68, 0x69 :: 8 word])"
    by (rule fifo_up_to_511 [OF serial_sys_hyps(1-4) z serial_sys_hyps(5) l])
  then have "map_option fst (Option.bind (serial_intr (serial_sys [0x68, 0x69])) (pops pc_hdr 2)) =
      Some [0x68, 0x69]"
    unfolding e m .
  then show ?thesis
    using serial_sys_hyps [of "[0x68, 0x69]"] by blast
qed

text \<open>
  C5 as stated fails at 512 bytes: after 512 stores the write cursor is back on the read
  cursor, the buffer counts as empty, and all 512 calls of \<^verbatim>\<open>cons_getc\<close> return \<open>-1\<close>.
\<close>

theorem fifo_512_counterexample:
  "length full_bytes = 512 \<and> 0 \<notin> set full_bytes \<and>
   map_option fst (Option.bind (serial_intr (serial_sys full_bytes)) (pops pc_hdr 512)) =
     Some (replicate 512 (- 1)) \<and>
   map ucast full_bytes \<noteq> (replicate 512 (- 1) :: 32 word list)"
proof -
  have l: "length full_bytes = 512" by (simp add: full_bytes_def)
  have z: "0 \<notin> set full_bytes" by (simp add: full_bytes_def)
  have f: "fold q_put full_bytes [] = []" using l by (rule fold_q_put_512)
  have r: "map_option fst (Option.bind (serial_intr (serial_sys full_bytes)) (pops pc_hdr 512)) =
     Some (replicate 512 (- 1))"
    using drain_then_pops [OF serial_sys_hyps(1-4) z serial_sys_hyps(5), of 512] by (simp add: f)
  have "map ucast full_bytes = (replicate 512 (ucast (0x41 :: 8 word)) :: 32 word list)"
    by (simp only: full_bytes_def map_replicate)
  moreover have "(replicate 512 (ucast (0x41 :: 8 word)) :: 32 word list) \<noteq> replicate 512 (- 1)"
    by (simp only: replicate_eq_replicate) simp
  ultimately have n: "map ucast full_bytes \<noteq> (replicate 512 (- 1) :: 32 word list)" by simp
  show ?thesis using l z r n by blast
qed

text \<open>
  C1, as amended. After 513 nonzero bytes have been pushed into an empty ring buffer with
  no pop in between, the buffer holds one unread byte: the first of 512 calls of
  \<^verbatim>\<open>cons_getc\<close> returns the byte pushed last (it took the cell of the first), and the
  other 511 return \<open>-1\<close>.
\<close>

theorem overflow_keeps_last:
  assumes "cons_ok (cons s)" and "rpos (cons s) = wpos (cons s)" and "serial_exists s"
    and "serial_delivers bs (inp s (COM1 + COM_LSR)) (inp s (COM1 + COM_RX))"
    and "0 \<notin> set bs" and "kbd_idle K s" and "length bs = 513"
  shows "map_option fst (Option.bind (serial_intr s) (pops K 512)) =
     Some (ucast (last bs) # replicate 511 (- 1))"
proof -
  have f: "fold q_put bs [] = [last bs]" using assms(7) by (rule fold_q_put_513)
  have "replicate (512 - 1) (- 1 :: 32 word) = replicate 511 (- 1)" by simp
  then show ?thesis
    using drain_then_pops [OF assms(1-6), of 512] unfolding f by simp
qed

theorem overflow_keeps_last_witness:
  "cons_ok (cons (serial_sys ovf_bytes)) \<and>
   rpos (cons (serial_sys ovf_bytes)) = wpos (cons (serial_sys ovf_bytes)) \<and>
   kbd_idle pc_hdr (serial_sys ovf_bytes) \<and>
   length ovf_bytes = 513 \<and> 0 \<notin> set ovf_bytes \<and>
   map_option fst (Option.bind (serial_intr (serial_sys ovf_bytes)) (pops pc_hdr 512)) =
     Some (3 # replicate 511 (- 1))"
  using overflow_keeps_last [OF serial_sys_hyps(1-4) ovf_bytes_facts(2) serial_sys_hyps(5) ovf_bytes_facts(1)]
    serial_sys_hyps [of ovf_bytes] ovf_bytes_facts
  by simp

text \<open>
  C1 as stated fails: for the 513 bytes \<open>1, 2, \<dots>, 255, 1, 2, \<dots>\<close> (a byte has only 255
  nonzero values, so 513 bytes cannot all differ) the 512 pops do not return bytes 2 to
  513 of the input.
\<close>

theorem overflow_counterexample:
  "length ovf_bytes = 513 \<and> 0 \<notin> set ovf_bytes \<and>
   map_option fst (Option.bind (serial_intr (serial_sys ovf_bytes)) (pops pc_hdr 512)) \<noteq>
     Some (map ucast (tl ovf_bytes))"
proof -
  have f: "fold q_put ovf_bytes [] = [last ovf_bytes]"
    using ovf_bytes_facts(1) by (rule fold_q_put_513)
  have "replicate (512 - 1) (- 1 :: 32 word) = replicate 511 (- 1)" by simp
  then have r: "map_option fst (Option.bind (serial_intr (serial_sys ovf_bytes)) (pops pc_hdr 512)) =
     Some (ucast (last ovf_bytes) # replicate 511 (- 1))"
    using drain_then_pops [OF serial_sys_hyps(1-4) ovf_bytes_facts(2) serial_sys_hyps(5), of 512]
    unfolding f by simp
  have "(ucast (last ovf_bytes) # replicate 511 (- 1) :: 32 word list) \<noteq> map ucast (tl ovf_bytes)"
  proof
    assume e: "(ucast (last ovf_bytes) # replicate 511 (- 1) :: 32 word list) = map ucast (tl ovf_bytes)"
    have l: "length (tl ovf_bytes) = 512" using ovf_bytes_facts(1) by simp
    have "(ucast (last ovf_bytes) # replicate 511 (- 1) :: 32 word list) ! 1 = - 1" by simp
    moreover have "map ucast (tl ovf_bytes) ! 1 = (ucast (tl ovf_bytes ! 1) :: 32 word)"
      using l by (intro nth_map) simp
    ultimately have "(ucast (tl ovf_bytes ! 1) :: 32 word) = - 1" using e by simp
    then show False by (simp add: ucast8_not_m1)
  qed
  then show ?thesis unfolding r using ovf_bytes_facts(1,2) by simp
qed

section \<open>\<^verbatim>\<open>getchar\<close> on an empty buffer\<close>

text \<open>
  C2 fails on the code: \<^verbatim>\<open>getchar\<close> repeats \<^verbatim>\<open>cons_getc\<close> only while it returns 0,
  and \<^verbatim>\<open>cons_getc\<close> returns \<open>-1\<close> for an empty buffer. At boot, with no input
  pending on either device, \<^verbatim>\<open>getchar\<close> returns \<open>-1\<close> after a single poll.
\<close>

theorem getchar_returns_minus_one:
  "map_option fst (getchar pc_hdr (boot 0)) = Some (- 1)"
  by (simp add: getchar.simps cons_getc_def serial_intr_def kbd_intr_def console_intr_def
      cons_intr.simps kbd_proc_data_def inb_def boot_def pc_hdr_def Let_def cons_take_def)

end
